theory Spec2Isabelle
  imports Main
begin

section \<open>Characters and strings\<close>

text \<open>
  The converter works on Python strings. A string is modelled as a \<^typ>\<open>string\<close>, one
  \<^typ>\<open>char\<close> per code point, which covers the code points below 256. The two character
  predicates below are the regular expression classes \<^verbatim>\<open>\s\<close> and \<^verbatim>\<open>\d\<close> of Python's
  \<^verbatim>\<open>re\<close> module on that range.
\<close>

definition is_space :: "char \<Rightarrow> bool" where
  "is_space c = (c \<in> set [CHR 0x09, CHR 0x0A, CHR 0x0B, CHR 0x0C, CHR 0x0D,
     CHR 0x1C, CHR 0x1D, CHR 0x1E, CHR 0x1F, CHR 0x20, CHR 0x85, CHR 0xA0])"

definition is_digit :: "char \<Rightarrow> bool" where
  "is_digit c = (c \<in> set ''0123456789'')"

text \<open>\<^verbatim>\<open>s.split(sep)\<close> for a separator of one character, and \<^verbatim>\<open>sep.join(xs)\<close>.\<close>

fun str_split :: "char \<Rightarrow> string \<Rightarrow> string list" where
  "str_split sep [] = [[]]"
| "str_split sep (c # cs) =
     (if c = sep then [] # str_split sep cs
      else (case str_split sep cs of [] \<Rightarrow> [[c]] | l # ls \<Rightarrow> (c # l) # ls))"

fun str_join :: "string \<Rightarrow> string list \<Rightarrow> string" where
  "str_join sep [] = []"
| "str_join sep [x] = x"
| "str_join sep (x # y # ys) = x @ sep @ str_join sep (y # ys)"

text \<open>The decimal numeral of a natural number, as an f-string prints it.\<close>

fun str_nat :: "nat \<Rightarrow> string" where
  "str_nat n = (if n < 10 then [''0123456789'' ! n]
                else str_nat (n div 10) @ [''0123456789'' ! (n mod 10)])"

declare str_nat.simps [simp del]

section \<open>Regular expressions\<close>

text \<open>
  Every pattern of the converter is a sequence of quantified character classes, some of
  them capture groups, with an optional \<^verbatim>\<open>$\<close> at the end. The matcher below is the
  backtracking matcher of \<^verbatim>\<open>re.match\<close> on such patterns: a greedy quantifier tries the
  longest repetition first, a lazy one the shortest, and the first alternative under which
  the rest of the pattern matches is taken.
\<close>

datatype cclass = Lit char | OneOf string | NoneOf string | AnyChar | Space | Digit

fun cmatches :: "cclass \<Rightarrow> char \<Rightarrow> bool" where
  "cmatches (Lit a) c = (c = a)"
| "cmatches (OneOf cs) c = (c \<in> set cs)"
| "cmatches (NoneOf cs) c = (c \<notin> set cs)"
| "cmatches AnyChar c = (c \<noteq> CHR ''\<newline>'')"
| "cmatches Space c = is_space c"
| "cmatches Digit c = is_digit c"

datatype quant = Once | Plus | LazyPlus | Between nat nat

datatype atom = Atom cclass quant bool

type_synonym regex = "atom list \<times> bool"

text \<open>A match: the length of group 0 and the capture groups 1, 2, ...\<close>

type_synonym rmatch = "nat \<times> string list"

text \<open>
  The repetition counts a quantifier tries, in the order it tries them, when at most
  \<open>m\<close> characters of the class stand at the current position.
\<close>

fun counts :: "quant \<Rightarrow> nat \<Rightarrow> nat list" where
  "counts Once m = (if 1 \<le> m then [1] else [])"
| "counts Plus m = rev [1..<Suc m]"
| "counts LazyPlus m = [1..<Suc m]"
| "counts (Between lo hi) m = rev [lo..<Suc (min hi m)]"

primrec first_some :: "('a \<Rightarrow> 'b option) \<Rightarrow> 'a list \<Rightarrow> 'b option" where
  "first_some f [] = None"
| "first_some f (x # xs) = (case f x of Some y \<Rightarrow> Some y | None \<Rightarrow> first_some f xs)"

text \<open>\<^verbatim>\<open>$\<close> matches at the end of the string and before a newline that ends it.\<close>

definition at_end :: "string \<Rightarrow> bool" where
  "at_end s = (s = [] \<or> s = ''\<newline>'')"

primrec match_atoms :: "atom list \<Rightarrow> bool \<Rightarrow> string \<Rightarrow> rmatch option" where
  "match_atoms [] dollar s = (if dollar then (if at_end s then Some (0, []) else None) else Some (0, []))"
| "match_atoms (a # as) dollar s =
     (case a of Atom cl q captured \<Rightarrow>
        first_some
          (\<lambda>k. case match_atoms as dollar (drop k s) of
                 None \<Rightarrow> None
               | Some (n, gs) \<Rightarrow> Some (k + n, if captured then take k s # gs else gs))
          (counts q (length (takeWhile (cmatches cl) s))))"

definition re_match :: "regex \<Rightarrow> string \<Rightarrow> rmatch option" where
  "re_match rx s = match_atoms (fst rx) (snd rx) s"

text \<open>\<^verbatim>\<open>m.group(k)\<close> for \<open>k \<ge> 1\<close>, and \<^verbatim>\<open>len(m.group(0))\<close>.\<close>

definition match_group :: "rmatch \<Rightarrow> nat \<Rightarrow> string" where
  "match_group m k = snd m ! (k - 1)"

definition len_group0 :: "rmatch \<Rightarrow> nat" where
  "len_group0 m = fst m"

text \<open>
  \<^verbatim>\<open>re.sub(pattern, '', s)\<close> for a pattern that starts with \<^verbatim>\<open>^\<close>: the pattern can match at
  position 0 only, so at most one match is removed.
\<close>

definition re_sub_empty :: "regex \<Rightarrow> string \<Rightarrow> string" where
  "re_sub_empty rx s = (case re_match rx s of None \<Rightarrow> s | Some m \<Rightarrow> drop (len_group0 m) s)"

section \<open>The patterns of the converter\<close>

text \<open>\<^verbatim>\<open>^(#{1,6})\s+(.+)$\<close>\<close>

definition heading_rx :: regex where
  "heading_rx = ([Atom (Lit CHR ''#'') (Between 1 6) True, Atom Space Plus False,
                  Atom AnyChar Plus True], True)"

text \<open>\<^verbatim>\<open>^[\-\*]\s+\<close>\<close>

definition bullet_rx :: regex where
  "bullet_rx = ([Atom (OneOf ''-*'') Once False, Atom Space Plus False], False)"

text \<open>\<^verbatim>\<open>^\d+\.\s+\<close>\<close>

definition numbered_rx :: regex where
  "numbered_rx = ([Atom Digit Plus False, Atom (Lit CHR ''.'') Once False,
                   Atom Space Plus False], False)"

datatype format_type = Bold | Italic | Link

text \<open>
  The table \<^verbatim>\<open>patterns\<close> of \<^verbatim>\<open>process_inline_markdown\<close>:
  \<^verbatim>\<open>\*\*(.+?)\*\*\<close>, \<^verbatim>\<open>__(.+?)__\<close>, \<^verbatim>\<open>\*(.+?)\*\<close>, \<^verbatim>\<open>_(.+?)_\<close> and
  \<^verbatim>\<open>\[([^\]]+)\]\(([^)]+)\)\<close>.
\<close>

definition patterns :: "(regex \<times> format_type) list" where
  "patterns =
    [(([Atom (Lit CHR ''*'') Once False, Atom (Lit CHR ''*'') Once False,
        Atom AnyChar LazyPlus True,
        Atom (Lit CHR ''*'') Once False, Atom (Lit CHR ''*'') Once False], False), Bold),
     (([Atom (Lit CHR ''_'') Once False, Atom (Lit CHR ''_'') Once False,
        Atom AnyChar LazyPlus True,
        Atom (Lit CHR ''_'') Once False, Atom (Lit CHR ''_'') Once False], False), Bold),
     (([Atom (Lit CHR ''*'') Once False, Atom AnyChar LazyPlus True,
        Atom (Lit CHR ''*'') Once False], False), Italic),
     (([Atom (Lit CHR ''_'') Once False, Atom AnyChar LazyPlus True,
        Atom (Lit CHR ''_'') Once False], False), Italic),
     (([Atom (Lit CHR ''['') Once False, Atom (NoneOf '']'') Plus True,
        Atom (Lit CHR '']'') Once False, Atom (Lit CHR ''('') Once False,
        Atom (NoneOf '')'') Plus True, Atom (Lit CHR '')'') Once False], False), Link)]"

section \<open>Styling requests\<close>

text \<open>
  The requests are the dictionaries the converter builds. The constant entries of a
  request (the \<^verbatim>\<open>fields\<close> mask, the fixed colour of a link) are determined by its
  constructor and left out.
\<close>

datatype bullet_preset = BULLET_DISC_CIRCLE_SQUARE | NUMBERED_DECIMAL_ALPHA_ROMAN

datatype text_style = Flag format_type | LinkUrl string

datatype request =
    UpdateParagraphStyle int int string
  | CreateParagraphBullets int int bullet_preset
  | UpdateTextStyle int int text_style

fun startIndex :: "request \<Rightarrow> int" where
  "startIndex (UpdateParagraphStyle a b n) = a"
| "startIndex (CreateParagraphBullets a b p) = a"
| "startIndex (UpdateTextStyle a b t) = a"

fun endIndex :: "request \<Rightarrow> int" where
  "endIndex (UpdateParagraphStyle a b n) = b"
| "endIndex (CreateParagraphBullets a b p) = b"
| "endIndex (UpdateTextStyle a b t) = b"

fun is_text_style :: "request \<Rightarrow> bool" where
  "is_text_style (UpdateTextStyle a b t) = True"
| "is_text_style r = False"

section \<open>The inline formatter\<close>

text \<open>
  The \<^verbatim>\<open>for pattern, format_type in patterns\<close> loop of \<^verbatim>\<open>process_inline_markdown\<close>: the
  first pattern of the table that matches the string, with its match.
\<close>

primrec first_pattern :: "(regex \<times> format_type) list \<Rightarrow> string \<Rightarrow> (rmatch \<times> format_type) option" where
  "first_pattern [] s = None"
| "first_pattern (p # ps) s =
     (case re_match (fst p) s of
        Some m \<Rightarrow> Some (m, snd p)
      | None \<Rightarrow> first_pattern ps s)"

lemma first_some_SomeD:
  "first_some f xs = Some y \<Longrightarrow> \<exists>x \<in> set xs. f x = Some y"
  by (induction xs) (auto split: option.splits)

lemma counts_positive:
  "k \<in> set (counts q m) \<Longrightarrow> (\<And>lo hi. q = Between lo hi \<Longrightarrow> 1 \<le> lo) \<Longrightarrow> 1 \<le> k"
  by (cases q) (auto split: if_splits)

lemma re_match_progress:
  assumes "re_match (Atom cl q cap # as, dollar) s = Some m"
    and "\<And>lo hi. q = Between lo hi \<Longrightarrow> 1 \<le> lo"
  shows "1 \<le> len_group0 m"
proof -
  from assms(1) obtain k where k: "k \<in> set (counts q (length (takeWhile (cmatches cl) s)))"
    and m: "(case match_atoms as dollar (drop k s) of None \<Rightarrow> None
             | Some (n, gs) \<Rightarrow> Some (k + n, if cap then take k s # gs else gs)) = Some m"
    by (auto simp: re_match_def dest!: first_some_SomeD)
  from k assms(2) have "1 \<le> k" by (rule counts_positive)
  with m show ?thesis by (auto simp: len_group0_def split: option.splits)
qed

declare match_atoms.simps [simp del]

lemma first_pattern_progress:
  "first_pattern patterns s = Some (m, ft) \<Longrightarrow> 1 \<le> len_group0 m"
  by (auto simp: patterns_def split: option.splits dest!: re_match_progress)

text \<open>
  The \<^verbatim>\<open>while i < len(text)\<close> loop of \<^verbatim>\<open>process_inline_markdown\<close>, on the variables
  \<^verbatim>\<open>i\<close>, \<^verbatim>\<open>result\<close> and \<^verbatim>\<open>format_requests\<close>.
\<close>

function inline_loop :: "string \<Rightarrow> int \<Rightarrow> nat \<Rightarrow> string \<Rightarrow> request list \<Rightarrow> string \<times> request list" where
  "inline_loop text offset i result format_requests =
     (if i < length text then
        (case first_pattern patterns (drop i text) of
           Some (m, format_type) \<Rightarrow>
             if format_type = Link then
               (let link_text = match_group m 1;
                    link_url = match_group m 2;
                    start = offset + int (length result);
                    end_index = start + int (length link_text)
                in inline_loop text offset (i + len_group0 m) (result @ link_text)
                     (format_requests @ [UpdateTextStyle start end_index (LinkUrl link_url)]))
             else
               (let inner_text = match_group m 1;
                    start = offset + int (length result);
                    end_index = start + int (length inner_text)
                in inline_loop text offset (i + len_group0 m) (result @ inner_text)
                     (format_requests @ [UpdateTextStyle start end_index (Flag format_type)]))
         | None \<Rightarrow> inline_loop text offset (i + 1) (result @ [text ! i]) format_requests)
      else (result, format_requests))"
  by pat_completeness auto
termination
proof (relation "measure (\<lambda>(t, offset, i, result, format_requests). length t - i)")
  show "wf (measure (\<lambda>(t, offset, i, result, format_requests). length t - i))"
    by simp
next
  fix t :: string and offset :: int and i :: nat and result :: string
    and format_requests :: "request list" and x2 :: "rmatch \<times> format_type"
    and m format_type link_text link_url start end_index
  assume "i < length t" and "first_pattern patterns (drop i t) = Some x2"
    and "(m, format_type) = x2"
  then have "1 \<le> len_group0 m"
    using first_pattern_progress [of "drop i t" m format_type] by simp
  with \<open>i < length t\<close>
  show "((t, offset, i + len_group0 m, result @ link_text,
          format_requests @ [UpdateTextStyle start end_index (LinkUrl link_url)]),
         (t, offset, i, result, format_requests))
        \<in> measure (\<lambda>(t, offset, i, result, format_requests). length t - i)"
    by simp
next
  fix t :: string and offset :: int and i :: nat and result :: string
    and format_requests :: "request list" and x2 :: "rmatch \<times> format_type"
    and m format_type inner_text start end_index
  assume "i < length t" and "first_pattern patterns (drop i t) = Some x2"
    and "(m, format_type) = x2"
  then have "1 \<le> len_group0 m"
    using first_pattern_progress [of "drop i t" m format_type] by simp
  with \<open>i < length t\<close>
  show "((t, offset, i + len_group0 m, result @ inner_text,
          format_requests @ [UpdateTextStyle start end_index (Flag format_type)]),
         (t, offset, i, result, format_requests))
        \<in> measure (\<lambda>(t, offset, i, result, format_requests). length t - i)"
    by simp
next
  fix t :: string and offset :: int and i :: nat and result :: string
    and format_requests :: "request list"
  assume "i < length t"
  then show "((t, offset, i + 1, result @ [t ! i], format_requests),
              (t, offset, i, result, format_requests))
        \<in> measure (\<lambda>(t, offset, i, result, format_requests). length t - i)"
    by simp
qed

declare inline_loop.simps [simp del]

definition process_inline_markdown :: "string \<Rightarrow> int \<Rightarrow> string \<times> request list" where
  "process_inline_markdown text base_index = inline_loop text base_index 0 [] []"

section \<open>The block scanner\<close>

text \<open>
  The inner loop of a list run,
  \<^verbatim>\<open>while i < len(lines) and re.match(rx, lines[i])\<close>, which strips the marker of each
  item and collects the items. It returns the new \<^verbatim>\<open>i\<close> and \<^verbatim>\<open>list_items\<close>.
\<close>

function collect_items :: "regex \<Rightarrow> string list \<Rightarrow> nat \<Rightarrow> string list \<Rightarrow> nat \<times> string list" where
  "collect_items rx lines i list_items =
     (if i < length lines \<and> re_match rx (lines ! i) \<noteq> None then
        collect_items rx lines (i + 1) (list_items @ [re_sub_empty rx (lines ! i)])
      else (i, list_items))"
  by pat_completeness auto
termination
  by (relation "measure (\<lambda>(rx, lines, i, list_items). length lines - i)") auto

declare collect_items.simps [simp del]

text \<open>
  The state of the outer loop of \<^verbatim>\<open>parse_markdown_to_doc_requests\<close>: the variables
  \<^verbatim>\<open>i\<close>, \<^verbatim>\<open>plain_text\<close>, \<^verbatim>\<open>current_index\<close> and \<^verbatim>\<open>format_requests\<close>.
\<close>

type_synonym conv_state = "nat \<times> string \<times> int \<times> request list"

text \<open>
  The body of the bullet branch and of the numbered branch: the two differ in the pattern
  and in the preset only.
\<close>

definition list_run :: "regex \<Rightarrow> bullet_preset \<Rightarrow> string list \<Rightarrow> conv_state \<Rightarrow> conv_state" where
  "list_run rx preset lines st =
     (case st of (i, plain_text, current_index, format_requests) \<Rightarrow>
        (let list_start = current_index;
             (i', list_items) = collect_items rx lines i [];
             list_text = str_join ''\<newline>'' list_items @ ''\<newline>'';
             list_end = list_start + int (length list_text)
         in (i', plain_text @ list_text, list_end,
             format_requests @ [CreateParagraphBullets list_start list_end preset])))"

text \<open>One pass through the body of the outer \<^verbatim>\<open>while i < len(lines)\<close> loop.\<close>

definition block_step :: "string list \<Rightarrow> conv_state \<Rightarrow> conv_state" where
  "block_step lines st =
     (case st of (i, plain_text, current_index, format_requests) \<Rightarrow>
        (let line = lines ! i in
         case re_match heading_rx line of
           Some heading_match \<Rightarrow>
             (let level = length (match_group heading_match 1);
                  heading_text = match_group heading_match 2 @ ''\<newline>'';
                  start = current_index;
                  end_index = start + int (length heading_text)
              in (i + 1, plain_text @ heading_text, end_index,
                  format_requests @
                    [UpdateParagraphStyle start end_index (''HEADING_'' @ str_nat level)]))
         | None \<Rightarrow>
             if re_match bullet_rx line \<noteq> None then
               list_run bullet_rx BULLET_DISC_CIRCLE_SQUARE lines st
             else if re_match numbered_rx line \<noteq> None then
               list_run numbered_rx NUMBERED_DECIMAL_ALPHA_ROMAN lines st
             else
               (let (processed_line, inline_formats) = process_inline_markdown line current_index
                in if processed_line \<noteq> [] \<or> line = [] then
                     (i + 1, plain_text @ processed_line @ ''\<newline>'',
                      current_index + int (length processed_line) + 1,
                      format_requests @ inline_formats)
                   else (i + 1, plain_text, current_index, format_requests))))"

lemma collect_items_ge: "i \<le> fst (collect_items rx lines i list_items)"
proof (induction rx lines i list_items rule: collect_items.induct)
  case (1 rx lines i list_items)
  show ?case
  proof (cases "i < length lines \<and> re_match rx (lines ! i) \<noteq> None")
    case True
    with "1.IH" have "i + 1 \<le> fst (collect_items rx lines (i + 1)
        (list_items @ [re_sub_empty rx (lines ! i)]))"
      by simp
    with True show ?thesis by (auto simp: collect_items.simps [of rx lines i list_items])
  next
    case False
    then show ?thesis by (auto simp: collect_items.simps [of rx lines i list_items])
  qed
qed

lemma collect_items_gt:
  assumes "i < length lines" and "re_match rx (lines ! i) \<noteq> None"
  shows "i < fst (collect_items rx lines i list_items)"
proof -
  have "i + 1 \<le> fst (collect_items rx lines (i + 1) (list_items @ [re_sub_empty rx (lines ! i)]))"
    by (rule collect_items_ge)
  with assms show ?thesis by (auto simp: collect_items.simps [of rx lines i list_items])
qed

lemma list_run_advances:
  assumes "i < length lines" and "re_match rx (lines ! i) \<noteq> None"
  shows "i < fst (list_run rx preset lines (i, plain_text, current_index, format_requests))"
  using collect_items_gt [OF assms, of "[]"]
  by (auto simp: list_run_def Let_def split: prod.splits)

lemma block_step_advances:
  assumes "fst st < length lines"
  shows "fst st < fst (block_step lines st)"
proof -
  obtain i plain_text current_index format_requests
    where st: "st = (i, plain_text, current_index, format_requests)"
    by (cases st) auto
  with assms have i: "i < length lines" by simp
  show ?thesis
    using list_run_advances [OF i, of bullet_rx] list_run_advances [OF i, of numbered_rx]
    by (simp add: st block_step_def Let_def split: option.splits prod.splits)
qed

text \<open>The outer loop, from a state to the state in which it ends.\<close>

function scan_loop :: "string list \<Rightarrow> conv_state \<Rightarrow> conv_state" where
  "scan_loop lines st =
     (if fst st < length lines then scan_loop lines (block_step lines st) else st)"
  by pat_completeness auto
termination
proof (relation "measure (\<lambda>(lines, st). length lines - fst st)")
  show "wf (measure (\<lambda>(lines, st). length lines - fst st))" by simp
next
  fix lines :: "string list" and st :: conv_state
  assume "fst st < length lines"
  then show "((lines, block_step lines st), (lines, st))
      \<in> measure (\<lambda>(lines, st). length lines - fst st)"
    using block_step_advances [of st lines] by simp
qed

declare scan_loop.simps [simp del]

text \<open>
  The state in which the outer loop ends on an input, and the converter itself, which
  returns the text and the requests of that state.
\<close>

definition final_state :: "string \<Rightarrow> conv_state" where
  "final_state markdown = scan_loop (str_split CHR ''\<newline>'' markdown) (0, [], 1, [])"

definition parse_markdown_to_doc_requests :: "string \<Rightarrow> string \<times> request list" where
  "parse_markdown_to_doc_requests markdown =
     (case final_state markdown of
        (i, plain_text, current_index, format_requests) \<Rightarrow> (plain_text, format_requests))"

section \<open>The inline patterns in closed form\<close>

text \<open>
  What the specification calls \<^verbatim>\<open>**x**\<close>, \<^verbatim>\<open>__x__\<close>, \<^verbatim>\<open>*x*\<close> and \<^verbatim>\<open>_x_\<close>: the string
  starts with the delimiter \<open>d\<close>, then comes the inner text, which has at least one
  character and no newline, then \<open>d\<close> again; the inner text ends at the first place
  where that is possible. \<open>until_delim d s\<close> is the text of \<open>s\<close> before the first
  occurrence of \<open>d\<close>, if no newline comes earlier.
\<close>

fun until_delim :: "string \<Rightarrow> string \<Rightarrow> string option" where
  "until_delim d [] = None"
| "until_delim d (x # xs) =
     (if take (length d) (x # xs) = d then Some []
      else if x = CHR ''\<newline>'' then None
      else map_option ((#) x) (until_delim d xs))"

definition delimited :: "string \<Rightarrow> string \<Rightarrow> string option" where
  "delimited d s =
     (if take (length d) s = d then
        (case drop (length d) s of
           [] \<Rightarrow> None
         | x # xs \<Rightarrow> if x = CHR ''\<newline>'' then None else map_option ((#) x) (until_delim d xs))
      else None)"

text \<open>
  What the specification calls \<^verbatim>\<open>[text](url)\<close>: an opening bracket, a text without
  closing bracket, \<^verbatim>\<open>](\<close>, a target without closing parenthesis, and the closing
  parenthesis; text and target have at least one character each.
\<close>

definition link_span :: "string \<Rightarrow> (string \<times> string) option" where
  "link_span s =
     (case s of
        [] \<Rightarrow> None
      | c # r \<Rightarrow>
          (let link_text = takeWhile (\<lambda>x. x \<noteq> CHR '']'') r;
               r1 = dropWhile (\<lambda>x. x \<noteq> CHR '']'') r;
               link_url = takeWhile (\<lambda>x. x \<noteq> CHR '')'') (drop 2 r1);
               r2 = dropWhile (\<lambda>x. x \<noteq> CHR '')'') (drop 2 r1)
           in if c = CHR ''['' \<and> link_text \<noteq> [] \<and> take 2 r1 = '']('' \<and> link_url \<noteq> []
                 \<and> r2 \<noteq> []
              then Some (link_text, link_url) else None))"

text \<open>
  The rules of the inline formatter as the specification lists them, in their order of
  priority: the inner text, its style and the number of characters the rule consumes.
\<close>

definition spec_rule :: "string \<Rightarrow> (string \<times> text_style \<times> nat) option" where
  "spec_rule s =
     (case delimited ''**'' s of
        Some x \<Rightarrow> Some (x, Flag Bold, length x + 4)
      | None \<Rightarrow>
     (case delimited ''__'' s of
        Some x \<Rightarrow> Some (x, Flag Bold, length x + 4)
      | None \<Rightarrow>
     (case delimited ''*'' s of
        Some x \<Rightarrow> Some (x, Flag Italic, length x + 2)
      | None \<Rightarrow>
     (case delimited ''_'' s of
        Some x \<Rightarrow> Some (x, Flag Italic, length x + 2)
      | None \<Rightarrow>
     (case link_span s of
        Some (x, url) \<Rightarrow> Some (x, LinkUrl url, length x + length url + 4)
      | None \<Rightarrow> None)))))"

text \<open>
  Text style requests that follow one another between \<open>lo\<close> and \<open>hi\<close>: each range
  is non-empty and starts where the one before it ends, or later.
\<close>

fun style_chain :: "int \<Rightarrow> request list \<Rightarrow> int \<Rightarrow> bool" where
  "style_chain lo [] hi = (lo \<le> hi)"
| "style_chain lo (r # rs) hi =
     (is_text_style r \<and> lo \<le> startIndex r \<and> startIndex r < endIndex r \<and>
      style_chain (endIndex r) rs hi)"

text \<open>The text of a list run: the items with their markers removed, one on each line.\<close>

definition list_text_of :: "regex \<Rightarrow> string list \<Rightarrow> string" where
  "list_text_of rx run = str_join ''\<newline>'' (map (re_sub_empty rx) run) @ ''\<newline>''"

text \<open>
  The list patterns as the specification writes them, \<^verbatim>\<open>^[-*]\s+.+\<close> and \<^verbatim>\<open>^\d+\.\s+.+\<close>: they
  ask for at least one character after the marker and its whitespace. The patterns
  \<open>bullet_rx\<close> and \<open>numbered_rx\<close> of the converter do not.
\<close>

definition spec_bullet_rx :: regex where
  "spec_bullet_rx = ([Atom (OneOf ''-*'') Once False, Atom Space Plus False,
                      Atom AnyChar Plus False], False)"

definition spec_numbered_rx :: regex where
  "spec_numbered_rx = ([Atom Digit Plus False, Atom (Lit CHR ''.'') Once False,
                        Atom Space Plus False, Atom AnyChar Plus False], False)"

text \<open>A request that makes a list of its range.\<close>

fun is_bullets :: "request \<Rightarrow> bool" where
  "is_bullets (CreateParagraphBullets a b p) = True"
| "is_bullets r = False"

text \<open>The test the scanner makes of a line: truth of \<^verbatim>\<open>re.match(rx, line)\<close>.\<close>

definition list_line :: "regex \<Rightarrow> string \<Rightarrow> bool" where
  "list_line rx line = (re_match rx line \<noteq> None)"

section \<open>The matcher, one character at a time\<close>

text \<open>
  One repetition count of an atom; a match of the rest of the string with one more
  character in front of its first group (\<open>shift\<close>) or as a group of its own
  (\<open>single\<close>).
\<close>

definition try_count :: "atom list \<Rightarrow> bool \<Rightarrow> bool \<Rightarrow> string \<Rightarrow> nat \<Rightarrow> rmatch option" where
  "try_count as dollar cap s k =
     (case match_atoms as dollar (drop k s) of
        None \<Rightarrow> None
      | Some (n, gs) \<Rightarrow> Some (k + n, if cap then take k s # gs else gs))"

definition shift :: "bool \<Rightarrow> char \<Rightarrow> rmatch \<Rightarrow> rmatch" where
  "shift cap x m = (Suc (fst m), if cap then (x # hd (snd m)) # tl (snd m) else snd m)"

definition single :: "bool \<Rightarrow> char \<Rightarrow> rmatch \<Rightarrow> rmatch" where
  "single cap x m = (Suc (fst m), if cap then [x] # snd m else snd m)"

fun is_captured :: "atom \<Rightarrow> bool" where
  "is_captured (Atom cl q c) = c"

lemma first_some_map: "first_some f (map g xs) = first_some (\<lambda>x. f (g x)) xs"
  by (induction xs) (auto split: option.splits)

lemma first_some_append:
  "first_some f (xs @ ys) = (case first_some f xs of Some y \<Rightarrow> Some y | None \<Rightarrow> first_some f ys)"
  by (induction xs) (auto split: option.splits)

lemma first_some_map_option:
  "first_some (\<lambda>x. map_option h (f x)) xs = map_option h (first_some f xs)"
  by (induction xs) (auto split: option.splits)

lemma upt_1_Suc_Suc: "[Suc 0..<Suc (Suc m)] = Suc 0 # map Suc [Suc 0..<Suc m]"
  by (simp add: upt_conv_Cons map_Suc_upt del: upt_Suc)

lemma match_atoms_Cons:
  "match_atoms (Atom cl q cap # as) dollar s =
     first_some (try_count as dollar cap s) (counts q (length (takeWhile (cmatches cl) s)))"
  unfolding try_count_def by (simp add: match_atoms.simps)

lemma try_count_Suc:
  "try_count as dollar cap (x # xs) (Suc k) = map_option (shift cap x) (try_count as dollar cap xs k)"
  by (auto simp: try_count_def shift_def split: option.splits)

lemma try_count_1:
  "try_count as dollar cap (x # xs) (Suc 0) = map_option (single cap x) (match_atoms as dollar xs)"
  by (auto simp: try_count_def single_def split: option.splits)

lemma first_some_try_count_Suc:
  "first_some (\<lambda>k. try_count as dollar cap (x # xs) (Suc k)) ks =
     map_option (shift cap x) (first_some (try_count as dollar cap xs) ks)"
  by (simp add: try_count_Suc first_some_map_option)

lemma match_atoms_Nil_string:
  "match_atoms (Atom cl Once cap # as) dollar [] = None"
  "match_atoms (Atom cl Plus cap # as) dollar [] = None"
  "match_atoms (Atom cl LazyPlus cap # as) dollar [] = None"
  by (simp_all add: match_atoms_Cons)

lemma match_atoms_Once:
  "match_atoms (Atom cl Once cap # as) dollar (x # xs) =
     (if cmatches cl x then map_option (single cap x) (match_atoms as dollar xs) else None)"
  by (simp add: match_atoms_Cons try_count_1 split: option.splits)

text \<open>A lazy repetition takes one character and tries the rest of the pattern first.\<close>

lemma match_atoms_LazyPlus:
  "match_atoms (Atom cl LazyPlus cap # as) dollar (x # xs) =
     (if cmatches cl x then
        (case match_atoms as dollar xs of
           Some m \<Rightarrow> Some (single cap x m)
         | None \<Rightarrow> map_option (shift cap x) (match_atoms (Atom cl LazyPlus cap # as) dollar xs))
      else None)"
proof (cases "cmatches cl x")
  case True
  then show ?thesis
    by (simp add: match_atoms_Cons upt_1_Suc_Suc first_some_map first_some_try_count_Suc
        try_count_1 del: upt_Suc split: option.splits)
next
  case False
  then show ?thesis by (simp add: match_atoms_Cons)
qed

text \<open>A greedy repetition takes one character and tries to go on first.\<close>

lemma match_atoms_Plus:
  "match_atoms (Atom cl Plus cap # as) dollar (x # xs) =
     (if cmatches cl x then
        (case match_atoms (Atom cl Plus cap # as) dollar xs of
           Some m \<Rightarrow> Some (shift cap x m)
         | None \<Rightarrow> map_option (single cap x) (match_atoms as dollar xs))
      else None)"
proof (cases "cmatches cl x")
  case True
  then show ?thesis
    by (simp add: match_atoms_Cons upt_1_Suc_Suc first_some_map first_some_try_count_Suc
        try_count_1 first_some_append rev_map del: upt_Suc split: option.splits)
next
  case False
  then show ?thesis by (simp add: match_atoms_Cons)
qed

text \<open>A match lies within the string, and so does every group.\<close>

lemma counts_le: "k \<in> set (counts q m) \<Longrightarrow> k \<le> m"
  by (cases q) (auto split: if_splits)

lemma match_atoms_groups:
  "match_atoms as dollar s = Some (n, gs) \<Longrightarrow>
     n \<le> length s \<and> length gs = length (filter is_captured as) \<and> (\<forall>g \<in> set gs. set g \<subseteq> set s)"
proof (induction as arbitrary: s n gs)
  case Nil
  then show ?case by (auto simp: match_atoms.simps split: if_splits)
next
  case (Cons a as)
  obtain cl q c where a: "a = Atom cl q c" by (cases a)
  from Cons.prems obtain k where k: "k \<in> set (counts q (length (takeWhile (cmatches cl) s)))"
    and m: "(case match_atoms as dollar (drop k s) of None \<Rightarrow> None
             | Some (n, gs) \<Rightarrow> Some (k + n, if c then take k s # gs else gs)) = Some (n, gs)"
    by (auto simp: a match_atoms.simps dest!: first_some_SomeD)
  from m obtain n' gs' where r: "match_atoms as dollar (drop k s) = Some (n', gs')"
    and n: "n = k + n'" and gs: "gs = (if c then take k s # gs' else gs')"
    by (auto split: option.splits)
  from counts_le [OF k] have "k \<le> length (takeWhile (cmatches cl) s)" .
  also have "\<dots> \<le> length s" by (rule length_takeWhile_le)
  finally have kl: "k \<le> length s" .
  from Cons.IH [OF r] have IH: "n' \<le> length (drop k s)" "length gs' = length (filter is_captured as)"
    "\<forall>g \<in> set gs'. set g \<subseteq> set (drop k s)" by auto
  have "n \<le> length s" using IH(1) kl n by simp
  moreover have "length gs = length (filter is_captured (a # as))"
    using IH(2) by (simp add: a gs)
  moreover have "\<forall>g \<in> set gs. set g \<subseteq> set s"
    using IH(3) by (auto simp: gs dest: in_set_takeD in_set_dropD)
  ultimately show ?case by simp
qed

text \<open>The lazy inner text of a delimited span, up to the closing delimiter.\<close>

lemma lazy_until:
  assumes closer: "\<And>xs. match_atoms cs False xs =
      (if take (length d) xs = d then Some (length d, []) else None)"
    and d: "d \<noteq> []"
  shows "match_atoms (Atom AnyChar LazyPlus True # cs) False s =
     (case s of
        [] \<Rightarrow> None
      | x # xs \<Rightarrow>
          if x = CHR ''\<newline>'' then None
          else (case until_delim d xs of
                  None \<Rightarrow> None
                | Some inner \<Rightarrow> Some (Suc (length inner) + length d, [x # inner])))"
proof (induction s)
  case Nil
  show ?case by (simp add: match_atoms_Nil_string)
next
  case (Cons x xs)
  show ?case
  proof (cases "take (length d) xs = d")
    case True
    with d obtain y ys where xs: "xs = y # ys" by (cases xs) auto
    from True show ?thesis
      by (simp add: match_atoms_LazyPlus closer single_def xs)
  next
    case False
    show ?thesis
    proof (cases xs)
      case Nil
      then show ?thesis using False
        by (simp add: match_atoms_LazyPlus closer match_atoms_Nil_string)
    next
      case (Cons y ys)
      with False Cons.IH show ?thesis
        by (simp add: match_atoms_LazyPlus closer shift_def split: option.splits)
    qed
  qed
qed

lemma match_two_literals:
  "match_atoms [Atom (Lit c) Once False, Atom (Lit c) Once False] False xs =
     (if take (length [c, c]) xs = [c, c] then Some (length [c, c], []) else None)"
proof (cases xs)
  case Nil
  then show ?thesis by (simp add: match_atoms_Nil_string)
next
  case (Cons y ys)
  then show ?thesis
    by (cases ys) (auto simp: match_atoms_Once match_atoms_Nil_string match_atoms.simps(1) single_def)
qed

lemma match_one_literal:
  "match_atoms [Atom (Lit c) Once False] False xs =
     (if take (length [c]) xs = [c] then Some (length [c], []) else None)"
  by (cases xs) (auto simp: match_atoms_Once match_atoms_Nil_string match_atoms.simps(1) single_def)

lemma re_match_bold:
  "re_match ([Atom (Lit c) Once False, Atom (Lit c) Once False, Atom AnyChar LazyPlus True,
        Atom (Lit c) Once False, Atom (Lit c) Once False], False) s =
     (case delimited [c, c] s of None \<Rightarrow> None | Some x \<Rightarrow> Some (length x + 4, [x]))"
proof -
  note lz = lazy_until [OF match_two_literals, of c]
  show ?thesis
  proof (cases s)
    case Nil
    then show ?thesis by (simp add: re_match_def delimited_def match_atoms_Nil_string)
  next
    case s: (Cons a r)
    show ?thesis
    proof (cases r)
      case Nil
      then show ?thesis
        by (simp add: s re_match_def delimited_def match_atoms_Once match_atoms_Nil_string)
    next
      case (Cons b r')
      then show ?thesis
        by (cases r') (auto simp: s re_match_def delimited_def match_atoms_Once lz single_def
            split: option.splits)
    qed
  qed
qed

lemma re_match_italic:
  "re_match ([Atom (Lit c) Once False, Atom AnyChar LazyPlus True,
        Atom (Lit c) Once False], False) s =
     (case delimited [c] s of None \<Rightarrow> None | Some x \<Rightarrow> Some (length x + 2, [x]))"
proof -
  note lz = lazy_until [OF match_one_literal, of c]
  show ?thesis
  proof (cases s)
    case Nil
    then show ?thesis by (simp add: re_match_def delimited_def match_atoms_Nil_string)
  next
    case s: (Cons a r)
    then show ?thesis
      by (cases r) (auto simp: s re_match_def delimited_def match_atoms_Once lz single_def
          split: option.splits)
  qed
qed

text \<open>A greedy repetition that the rest of the pattern cannot cut short.\<close>

lemma try_count_takeWhile:
  "try_count as dollar cap s (length (takeWhile P s)) =
     (case match_atoms as dollar (dropWhile P s) of
        None \<Rightarrow> None
      | Some (n, gs) \<Rightarrow>
          Some (length (takeWhile P s) + n, if cap then takeWhile P s # gs else gs))"
proof -
  have "take (length (takeWhile P s)) s = takeWhile P s"
    by (rule takeWhile_eq_take [symmetric])
  moreover have "drop (length (takeWhile P s)) s = dropWhile P s"
    by (rule dropWhile_eq_drop [symmetric])
  ultimately show ?thesis by (simp add: try_count_def split: option.splits)
qed

lemma greedy_commit_aux:
  assumes "\<And>y ys. cmatches cl y \<Longrightarrow> match_atoms as dollar (y # ys) = None"
  shows "match_atoms (Atom cl Plus cap # as) dollar s =
     (if takeWhile (cmatches cl) s = [] then None
      else try_count as dollar cap s (length (takeWhile (cmatches cl) s)))"
proof (induction s)
  case Nil
  show ?case by (simp add: match_atoms_Nil_string)
next
  case (Cons x xs)
  show ?case
  proof (cases "cmatches cl x")
    case False
    then show ?thesis by (simp add: match_atoms_Plus)
  next
    case x: True
    show ?thesis
    proof (cases "takeWhile (cmatches cl) xs = []")
      case True
      with x Cons.IH show ?thesis
        by (simp add: match_atoms_Plus try_count_1)
    next
      case False
      then obtain y ys where xs: "xs = y # ys" and y: "cmatches cl y"
        by (cases xs) (auto split: if_splits)
      have "match_atoms as dollar xs = None" unfolding xs using y by (rule assms)
      with x False Cons.IH show ?thesis
        by (auto simp: match_atoms_Plus try_count_Suc split: option.splits)
    qed
  qed
qed

lemma greedy_commit:
  assumes "\<And>y ys. cmatches cl y \<Longrightarrow> match_atoms as dollar (y # ys) = None"
  shows "match_atoms (Atom cl Plus cap # as) dollar s =
     (if takeWhile (cmatches cl) s = [] then None
      else (case match_atoms as dollar (dropWhile (cmatches cl) s) of
              None \<Rightarrow> None
            | Some (n, gs) \<Rightarrow>
                Some (length (takeWhile (cmatches cl) s) + n,
                      if cap then takeWhile (cmatches cl) s # gs else gs)))"
  by (simp add: greedy_commit_aux [OF assms] try_count_takeWhile)

lemma greedy_last:
  "match_atoms [Atom cl Plus False] False s =
     (if takeWhile (cmatches cl) s = [] then None
      else Some (length (takeWhile (cmatches cl) s), []))"
proof (induction s)
  case Nil
  show ?case by (simp add: match_atoms_Nil_string)
next
  case (Cons x xs)
  then show ?case
    by (auto simp: match_atoms_Plus match_atoms.simps(1) shift_def single_def)
qed

lemma cmatches_Space: "cmatches Space = is_space"
  by (rule ext) simp

lemma cmatches_Digit: "cmatches Digit = is_digit"
  by (rule ext) simp

lemma re_match_bullet:
  "re_match bullet_rx s =
     (case s of
        [] \<Rightarrow> None
      | c # r \<Rightarrow>
          if (c = CHR ''-'' \<or> c = CHR ''*'') \<and> takeWhile is_space r \<noteq> []
          then Some (Suc (length (takeWhile is_space r)), []) else None)"
  by (cases s) (auto simp: re_match_def bullet_rx_def match_atoms_Nil_string match_atoms_Once
        greedy_last single_def cmatches_Space)

lemma re_match_numbered:
  "re_match numbered_rx s =
     (let ds = takeWhile is_digit s; r = dropWhile is_digit s in
      if ds \<noteq> [] \<and> take 1 r = ''.'' \<and> takeWhile is_space (drop 1 r) \<noteq> []
      then Some (length ds + Suc (length (takeWhile is_space (drop 1 r))), []) else None)"
proof -
  have nd: "\<not> is_digit CHR ''.''" by (simp add: is_digit_def)
  have c: "match_atoms [Atom (Lit CHR ''.'') Once False, Atom Space Plus False] False (y # ys) = None"
    if "cmatches Digit y" for y ys
    using that nd by (auto simp: match_atoms_Once)
  have "re_match numbered_rx s =
      (if takeWhile is_digit s = [] then None
       else (case match_atoms [Atom (Lit CHR ''.'') Once False, Atom Space Plus False] False
                   (dropWhile is_digit s) of
               None \<Rightarrow> None
             | Some (n, gs) \<Rightarrow> Some (length (takeWhile is_digit s) + n, gs)))"
    unfolding re_match_def numbered_rx_def fst_conv snd_conv
    by (subst greedy_commit) (auto simp: c cmatches_Digit split: option.splits)
  then show ?thesis
    by (cases "dropWhile is_digit s")
      (auto simp: Let_def match_atoms_Nil_string match_atoms_Once greedy_last single_def
        cmatches_Space simp del: dropWhile_eq_Nil_conv)
qed

lemma re_match_link:
  "re_match ([Atom (Lit CHR ''['') Once False, Atom (NoneOf '']'') Plus True,
        Atom (Lit CHR '']'') Once False, Atom (Lit CHR ''('') Once False,
        Atom (NoneOf '')'') Plus True, Atom (Lit CHR '')'') Once False], False) s =
     (case link_span s of
        None \<Rightarrow> None
      | Some (link_text, link_url) \<Rightarrow>
          Some (length link_text + length link_url + 4, [link_text, link_url]))"
proof -
  have c1: "cmatches (NoneOf '']'') = (\<lambda>x. x \<noteq> CHR '']'')"
    and c2: "cmatches (NoneOf '')'') = (\<lambda>x. x \<noteq> CHR '')'')"
    by (rule ext, simp)+
  have n1: "match_atoms (Atom (Lit CHR '']'') Once False # as) False (y # ys) = None"
    if "cmatches (NoneOf '']'') y" for as y ys
    using that by (simp add: match_atoms_Once)
  have n2: "match_atoms (Atom (Lit CHR '')'') Once False # as) False (y # ys) = None"
    if "cmatches (NoneOf '')'') y" for as y ys
    using that by (simp add: match_atoms_Once)
  note g1 = greedy_commit [of "NoneOf '']''" "Atom (Lit CHR '']'') Once False # as" False for as,
      unfolded c1, OF n1 [unfolded c1]]
  note g2 = greedy_commit [of "NoneOf '')''" "Atom (Lit CHR '')'') Once False # as" False for as,
      unfolded c2, OF n2 [unfolded c2]]
  have last: "match_atoms [Atom (Lit CHR '')'') Once False] False (dropWhile (\<lambda>x. x \<noteq> CHR '')'') r) =
     (if dropWhile (\<lambda>x. x \<noteq> CHR '')'') r = [] then None else Some (1, []))" for r
  proof (cases "dropWhile (\<lambda>x. x \<noteq> CHR '')'') r")
    case Nil
    then show ?thesis by (simp add: match_atoms_Nil_string del: dropWhile_eq_Nil_conv)
  next
    case (Cons y ys)
    then have "y = CHR '')''" using hd_dropWhile [of "\<lambda>x. x \<noteq> CHR '')''" r] by auto
    with Cons show ?thesis by (simp add: match_atoms_Once match_atoms.simps(1) single_def)
  qed
  show ?thesis
  proof (cases s)
    case Nil
    then show ?thesis by (simp add: re_match_def link_span_def match_atoms_Nil_string)
  next
    case s: (Cons c r)
    define r1 where "r1 = dropWhile (\<lambda>x. x \<noteq> CHR '']'') r"
    show ?thesis
    proof (cases r1)
      case Nil
      then show ?thesis
        by (auto simp: s re_match_def link_span_def match_atoms_Once g1
            r1_def [symmetric] Let_def match_atoms_Nil_string)
    next
      case r1: (Cons a r1')
      show ?thesis
      proof (cases r1')
        case Nil
        with r1 show ?thesis
          by (auto simp: s re_match_def link_span_def match_atoms_Once g1
            r1_def [symmetric] Let_def match_atoms_Nil_string)
      next
        case (Cons b r2)
        with r1 show ?thesis
          by (auto simp: s re_match_def link_span_def match_atoms_Once g1 g2 last
            r1_def [symmetric] Let_def match_atoms_Nil_string single_def)
      qed
    qed
  qed
qed

section \<open>The matcher on examples\<close>

text \<open>
  The matcher on strings where the order of the alternatives shows. The heading pattern
  gives the last whitespace character to the heading text when nothing else follows the
  marker; a lazy inner text may start with the delimiter itself.
\<close>

lemma heading_rx_examples:
  "re_match heading_rx ''#   '' = Some (4, [''#'', '' ''])"
  "re_match heading_rx ''###### x'' = Some (8, [''######'', ''x''])"
  "re_match heading_rx ''####### x'' = None"
  "re_match heading_rx ''# '' = None"
  "re_match heading_rx [CHR ''#'', CHR 0x09, CHR 0x0D] = Some (3, [''#'', [CHR 0x0D]])"
  by code_simp+

lemma list_rx_examples:
  "re_match numbered_rx ''12.  x'' = Some (5, [])"
  "re_match bullet_rx [CHR ''*'', CHR 0x09, CHR '' '', CHR ''x''] = Some (3, [])"
  "re_sub_empty numbered_rx ''12.  x'' = ''x''"
  "re_sub_empty bullet_rx ''-x'' = ''-x''"
  by code_simp+

lemma patterns_examples:
  "first_pattern patterns ''*****'' = Some ((5, [''*'']), Bold)"
  "first_pattern patterns ''____a__'' = Some ((7, [''__a'']), Bold)"
  "first_pattern patterns ''**a*'' = Some ((4, [''*a'']), Italic)"
  "first_pattern patterns ''[[a](b)c'' = Some ((7, [''[a'', ''b'']), Link)"
  "first_pattern patterns ''[a] (b)'' = None"
  by code_simp+

section \<open>The inline formatter, rule by rule\<close>

lemma first_pattern_spec:
  "first_pattern patterns s =
     (case delimited ''**'' s of
        Some x \<Rightarrow> Some ((length x + 4, [x]), Bold)
      | None \<Rightarrow>
     (case delimited ''__'' s of
        Some x \<Rightarrow> Some ((length x + 4, [x]), Bold)
      | None \<Rightarrow>
     (case delimited ''*'' s of
        Some x \<Rightarrow> Some ((length x + 2, [x]), Italic)
      | None \<Rightarrow>
     (case delimited ''_'' s of
        Some x \<Rightarrow> Some ((length x + 2, [x]), Italic)
      | None \<Rightarrow>
     (case link_span s of
        Some (x, url) \<Rightarrow> Some ((length x + length url + 4, [x, url]), Link)
      | None \<Rightarrow> None)))))"
  by (simp add: patterns_def re_match_bold re_match_italic re_match_link split: option.splits)

lemma until_delim_SomeD:
  "until_delim d s = Some x \<Longrightarrow> take (length x + length d) s = x @ d \<and> CHR ''\<newline>'' \<notin> set x"
proof (induction s arbitrary: x)
  case Nil
  then show ?case by simp
next
  case (Cons a s)
  show ?case
  proof (cases "take (length d) (a # s) = d")
    case True
    with Cons.prems show ?thesis by simp
  next
    case False
    with Cons.prems obtain x' where a: "a \<noteq> CHR ''\<newline>''" and x': "until_delim d s = Some x'"
      and x: "x = a # x'"
      by (auto split: if_splits)
    from Cons.IH [OF x'] show ?thesis using a by (auto simp: x)
  qed
qed

lemma delimited_SomeD:
  assumes "delimited d s = Some x"
  shows "x \<noteq> []" and "take (length x + 2 * length d) s = d @ x @ d" and "CHR ''\<newline>'' \<notin> set x"
proof -
  from assms have d: "take (length d) s = d"
    by (auto simp: delimited_def split: if_splits)
  from assms d obtain y ys x' where r: "drop (length d) s = y # ys" and y: "y \<noteq> CHR ''\<newline>''"
    and x': "until_delim d ys = Some x'" and x: "x = y # x'"
    by (auto simp: delimited_def split: list.splits if_splits)
  have s: "s = d @ y # ys" using append_take_drop_id [of "length d" s] by (simp add: d r)
  from until_delim_SomeD [OF x']
  have t: "take (length x' + length d) ys = x' @ d" and n: "CHR ''\<newline>'' \<notin> set x'" by auto
  show "x \<noteq> []" by (simp add: x)
  show "CHR ''\<newline>'' \<notin> set x" using n y by (simp add: x)
  have "take (length x + 2 * length d) s = d @ take (length x + length d) (y # ys)"
    by (subst s) (simp add: add.commute)
  also have "take (length x + length d) (y # ys) = y # take (length x' + length d) ys"
    by (simp add: x)
  finally show "take (length x + 2 * length d) s = d @ x @ d" by (simp add: t x)
qed

lemma link_span_SomeD:
  assumes "link_span s = Some (x, url)"
  shows "x \<noteq> []" and "url \<noteq> []"
    and "take (length x + length url + 4) s = ''['' @ x @ '']('' @ url @ '')''"
    and "CHR '']'' \<notin> set x" and "CHR '')'' \<notin> set url"
proof -
  from assms obtain c r where s: "s = c # r" by (cases s) (auto simp: link_span_def)
  define r1 where "r1 = dropWhile (\<lambda>x. x \<noteq> CHR '']'') r"
  define r2 where "r2 = dropWhile (\<lambda>x. x \<noteq> CHR '')'') (drop 2 r1)"
  from assms have c: "c = CHR ''[''" and x: "x = takeWhile (\<lambda>x. x \<noteq> CHR '']'') r"
    and url: "url = takeWhile (\<lambda>x. x \<noteq> CHR '')'') (drop 2 r1)"
    and ne: "x \<noteq> []" "url \<noteq> []" and mid: "take 2 r1 = ''](''" and r2: "r2 \<noteq> []"
    by (auto simp: link_span_def s Let_def r1_def r2_def split: if_splits)
  show "x \<noteq> []" "url \<noteq> []" by (rule ne)+
  show "CHR '']'' \<notin> set x" unfolding x by (auto dest: set_takeWhileD)
  show "CHR '')'' \<notin> set url" unfolding url by (auto dest: set_takeWhileD)
  have "hd r2 = CHR '')''" using r2 hd_dropWhile [of "\<lambda>x. x \<noteq> CHR '')''" "drop 2 r1"]
    by (simp add: r2_def)
  with r2 obtain r3 where r3: "r2 = CHR '')'' # r3" by (cases r2) auto
  have "r = x @ r1" by (simp add: x r1_def)
  moreover have "r1 = '']('' @ drop 2 r1" using append_take_drop_id [of 2 r1] by (simp add: mid)
  moreover have "drop 2 r1 = url @ r2" by (simp add: url r2_def)
  ultimately have "s = (''['' @ x @ '']('' @ url @ '')'') @ r3" by (simp add: s c r3)
  then have "take (length (''['' @ x @ '']('' @ url @ '')'')) s = ''['' @ x @ '']('' @ url @ '')''"
    by (metis append_eq_conv_conj)
  moreover have "length (''['' @ x @ '']('' @ url @ '')'') = length x + length url + 4"
    by simp
  ultimately show "take (length x + length url + 4) s = ''['' @ x @ '']('' @ url @ '')''"
    by (simp only:)
qed


lemma take_eq_lengthD: "take n s = ys \<Longrightarrow> length ys = n \<Longrightarrow> n \<le> length s"
  by (metis length_take min.cobounded1 min_def)

lemma spec_rule_SomeD:
  assumes "spec_rule s = Some (x, style, n)"
  shows "x \<noteq> []" and "set x \<subseteq> set s" and "1 \<le> n" and "n \<le> length s"
proof -
  have del: "x \<noteq> [] \<and> set x \<subseteq> set s \<and> 1 \<le> n \<and> n \<le> length s"
    if "delimited d s = Some x" and n: "n = length x + 2 * length d" for d
  proof -
    note D = delimited_SomeD [OF that(1)]
    have "set (take n s) \<subseteq> set s" by (rule set_take_subset)
    then have "set x \<subseteq> set s" using D(2) by (auto simp: n)
    moreover have "n \<le> length s"
      by (rule take_eq_lengthD [OF D(2) [folded n]]) (simp add: n)
    ultimately show ?thesis using D(1) by (cases x) (auto simp: n)
  qed
  have lnk: "x \<noteq> [] \<and> set x \<subseteq> set s \<and> 1 \<le> n \<and> n \<le> length s"
    if "link_span s = Some (x, url)" and n: "n = length x + length url + 4" for url
  proof -
    note D = link_span_SomeD [OF that(1)]
    have "set (take n s) \<subseteq> set s" by (rule set_take_subset)
    then have "set x \<subseteq> set s" using D(3) by (auto simp: n)
    moreover have "n \<le> length s"
      by (rule take_eq_lengthD [OF D(3) [folded n]]) (simp add: n)
    ultimately show ?thesis using D(1) by (auto simp: n)
  qed
  from assms consider
      (bold_star) "delimited ''**'' s = Some x" "n = length x + 4"
    | (bold_underscore) "delimited ''__'' s = Some x" "n = length x + 4"
    | (italic_star) "delimited ''*'' s = Some x" "n = length x + 2"
    | (italic_underscore) "delimited ''_'' s = Some x" "n = length x + 2"
    | (link) url where "link_span s = Some (x, url)" "n = length x + length url + 4"
    unfolding spec_rule_def by (auto split: option.splits)
  then have "x \<noteq> [] \<and> set x \<subseteq> set s \<and> 1 \<le> n \<and> n \<le> length s"
  proof cases
    case bold_star
    then show ?thesis by (intro del [of "''**''"]) simp_all
  next
    case bold_underscore
    then show ?thesis by (intro del [of "''__''"]) simp_all
  next
    case italic_star
    then show ?thesis by (intro del [of "''*''"]) simp_all
  next
    case italic_underscore
    then show ?thesis by (intro del [of "''_''"]) simp_all
  next
    case link
    then show ?thesis by (intro lnk [of url]) simp_all
  qed
  then show "x \<noteq> []" and "set x \<subseteq> set s" and "1 \<le> n" and "n \<le> length s" by auto
qed

lemma inline_loop_unfold:
  assumes "i < length t"
  shows "inline_loop t offset i result reqs =
     (case spec_rule (drop i t) of
        Some (x, style, n) \<Rightarrow>
          inline_loop t offset (i + n) (result @ x)
            (reqs @ [UpdateTextStyle (offset + int (length result))
                       (offset + int (length result) + int (length x)) style])
      | None \<Rightarrow> inline_loop t offset (i + 1) (result @ [t ! i]) reqs)"
  using assms
  by (subst inline_loop.simps)
    (simp add: first_pattern_spec spec_rule_def match_group_def len_group0_def Let_def
      split: option.splits)

lemma inline_loop_done:
  "\<not> i < length t \<Longrightarrow> inline_loop t offset i result reqs = (result, reqs)"
  by (subst inline_loop.simps) simp

lemma style_chain_lower: "style_chain lo fs hi \<Longrightarrow> lo' \<le> lo \<Longrightarrow> style_chain lo' fs hi"
  by (cases fs) auto

lemma inline_loop_inv:
  "\<exists>r fs. inline_loop t offset i result reqs = (result @ r, reqs @ fs) \<and>
      style_chain (offset + int (length result)) fs (offset + int (length result) + int (length r)) \<and>
      set r \<subseteq> set (drop i t) \<and> (r = [] \<longleftrightarrow> length t \<le> i)"
proof (induction "length t - i" arbitrary: i result reqs rule: less_induct)
  case less
  show ?case
  proof (cases "i < length t")
    case False
    then show ?thesis by (simp add: inline_loop_done)
  next
    case i: True
    then have ti: "drop i t = t ! i # drop (Suc i) t" by (simp add: Cons_nth_drop_Suc)
    show ?thesis
    proof (cases "spec_rule (drop i t)")
      case None
      from i have "length t - (i + 1) < length t - i" by simp
      from less [OF this, of "result @ [t ! i]" reqs]
      obtain r fs where
        eq: "inline_loop t offset (i + 1) (result @ [t ! i]) reqs = ((result @ [t ! i]) @ r, reqs @ fs)"
        and ch: "style_chain (offset + int (length (result @ [t ! i]))) fs
                   (offset + int (length (result @ [t ! i])) + int (length r))"
        and sub: "set r \<subseteq> set (drop (i + 1) t)"
        by blast
      have "inline_loop t offset i result reqs = (result @ (t ! i # r), reqs @ fs)"
        using eq by (simp add: inline_loop_unfold [OF i] None)
      moreover have "style_chain (offset + int (length result)) fs
          (offset + int (length result) + int (length (t ! i # r)))"
        using style_chain_lower [OF ch, of "offset + int (length result)"]
        by (simp add: algebra_simps)
      moreover have "set (t ! i # r) \<subseteq> set (drop i t)" using sub by (auto simp: ti)
      ultimately show ?thesis using i by (intro exI [of _ "t ! i # r"] exI [of _ fs]) simp
    next
      case (Some a)
      then obtain x style n where a: "spec_rule (drop i t) = Some (x, style, n)"
        by (cases a) auto
      note D = spec_rule_SomeD [OF a]
      define new where "new = UpdateTextStyle (offset + int (length result))
                       (offset + int (length result) + int (length x)) style"
      from i D(3) have "length t - (i + n) < length t - i" by simp
      from less [OF this, of "result @ x" "reqs @ [new]"]
      obtain r fs where
        eq: "inline_loop t offset (i + n) (result @ x) (reqs @ [new]) = ((result @ x) @ r, (reqs @ [new]) @ fs)"
        and ch: "style_chain (offset + int (length (result @ x))) fs
                   (offset + int (length (result @ x)) + int (length r))"
        and sub: "set r \<subseteq> set (drop (i + n) t)"
        by blast
      have "inline_loop t offset i result reqs = (result @ (x @ r), reqs @ (new # fs))"
        using eq by (simp add: inline_loop_unfold [OF i] a new_def)
      moreover have "style_chain (offset + int (length result)) (new # fs)
          (offset + int (length result) + int (length (x @ r)))"
        using ch D(1) by (simp add: new_def algebra_simps)
      moreover have "set (x @ r) \<subseteq> set (drop i t)"
        using sub D(2) set_drop_subset_set_drop [of i "i + n" t] by auto
      ultimately show ?thesis using i D(1)
        by (intro exI [of _ "x @ r"] exI [of _ "new # fs"]) simp
    qed
  qed
qed

lemma process_inline_markdown_inv:
  obtains r fs where "process_inline_markdown t b = (r, fs)"
    and "style_chain b fs (b + int (length r))" and "set r \<subseteq> set t" and "r = [] \<longleftrightarrow> t = []"
  using inline_loop_inv [of t b 0 "[]" "[]"] unfolding process_inline_markdown_def by auto

lemma style_chain_bounds:
  "style_chain lo fs hi \<Longrightarrow>
     lo \<le> hi \<and> (\<forall>r \<in> set fs. is_text_style r \<and> lo \<le> startIndex r \<and> startIndex r < endIndex r \<and> endIndex r \<le> hi)"
proof (induction fs arbitrary: lo)
  case Nil
  then show ?case by simp
next
  case (Cons r fs)
  from Cons.prems have r: "is_text_style r" "lo \<le> startIndex r" "startIndex r < endIndex r"
    and ch: "style_chain (endIndex r) fs hi" by auto
  from Cons.IH [OF ch] r show ?case by fastforce
qed

lemma style_chain_sorted:
  "style_chain lo fs hi \<Longrightarrow> j < k \<Longrightarrow> k < length fs \<Longrightarrow> endIndex (fs ! j) \<le> startIndex (fs ! k)"
proof (induction fs arbitrary: lo j k)
  case Nil
  then show ?case by simp
next
  case (Cons r fs)
  from Cons.prems(1) have ch: "style_chain (endIndex r) fs hi" by simp
  from Cons.prems(2) obtain k' where k: "k = Suc k'" by (cases k) auto
  with Cons.prems(3) have k': "k' < length fs" by simp
  show ?case
  proof (cases j)
    case 0
    from style_chain_bounds [OF ch] k' have "endIndex r \<le> startIndex (fs ! k')"
      by (auto dest: nth_mem)
    then show ?thesis by (simp add: 0 k)
  next
    case (Suc j')
    with Cons.prems(2) k have "j' < k'" by simp
    from Cons.IH [OF ch this k'] show ?thesis by (simp add: Suc k)
  qed
qed

text \<open>
  C6: at every position \<open>i\<close> of a line the inline formatter applies the first rule
  that matches there, in the order bold (\<^verbatim>\<open>**x**\<close>, then \<^verbatim>\<open>__x__\<close>), italic (\<^verbatim>\<open>*x*\<close>, then
  \<^verbatim>\<open>_x_\<close>), link (\<^verbatim>\<open>[text](url)\<close>): it appends the inner text, adds one text style request
  over the range of the inner text, and goes on right after the span it has consumed.
  When no rule matches, it copies the character at \<open>i\<close> and goes on at \<open>i + 1\<close>. The
  text a rule matches is its inner text, which is not empty, between its delimiters, and
  a rule consumes at least one character and no more than the line has.
\<close>

theorem inline_priority_and_fall_through:
  "(i < length t \<longrightarrow>
      inline_loop t offset i result reqs =
        (case spec_rule (drop i t) of
           Some (x, style, n) \<Rightarrow>
             inline_loop t offset (i + n) (result @ x)
               (reqs @ [UpdateTextStyle (offset + int (length result))
                          (offset + int (length result) + int (length x)) style])
         | None \<Rightarrow> inline_loop t offset (i + 1) (result @ [t ! i]) reqs)) \<and>
   (length t \<le> i \<longrightarrow> inline_loop t offset i result reqs = (result, reqs)) \<and>
   process_inline_markdown t offset = inline_loop t offset 0 [] [] \<and>
   (delimited d s = Some y \<longrightarrow> y \<noteq> [] \<and> take (length y + 2 * length d) s = d @ y @ d) \<and>
   (link_span s = Some (y, url) \<longrightarrow>
      y \<noteq> [] \<and> take (length y + length url + 4) s = ''['' @ y @ '']('' @ url @ '')'') \<and>
   (spec_rule s = Some (y, style', n') \<longrightarrow> 1 \<le> n' \<and> n' \<le> length s)"
  using inline_loop_unfold [of i t offset result reqs] inline_loop_done [of i t offset result reqs]
    delimited_SomeD(1,2) [of d s y] link_span_SomeD(1,3) [of s y url]
    spec_rule_SomeD(3,4) [of s y style' n']
  by (simp add: process_inline_markdown_def)

text \<open>The theorem at the second position of \<^verbatim>\<open>a*b*\<close>, where the italic rule matches.\<close>

theorem inline_priority_and_fall_through_witness:
  "1 < length ''a*b*'' \<and>
   spec_rule (drop 1 ''a*b*'') = Some (''b'', Flag Italic, 3) \<and>
   inline_loop ''a*b*'' 7 1 ''a'' [] = inline_loop ''a*b*'' 7 4 ''ab'' [UpdateTextStyle 8 9 (Flag Italic)] \<and>
   delimited ''*'' ''*b*'' = Some ''b'' \<and> take 3 ''*b*'' = ''*'' @ ''b'' @ ''*''"
proof -
  have r: "spec_rule (drop 1 ''a*b*'') = Some (''b'', Flag Italic, 3)" by code_simp
  have d: "delimited ''*'' ''*b*'' = Some ''b''" by code_simp
  from inline_priority_and_fall_through [of 1 "''a*b*''" 7 "''a''" "[]" "''*''" "''*b*''" "''b''"]
  show ?thesis using r d by simp
qed

text \<open>
  C10: every request of the inline formatter for a line is a text style request over a
  non-empty range, and of two requests the earlier one ends where the later one starts,
  or before: the ranges are pairwise disjoint and stand in the list in strictly
  increasing order of their positions.
\<close>

theorem text_style_ranges_well_formed:
  "process_inline_markdown t b = (r, fs) \<Longrightarrow>
     (\<forall>q \<in> set fs. is_text_style q \<and> startIndex q < endIndex q) \<and>
     (\<forall>j k. j < k \<and> k < length fs \<longrightarrow>
        endIndex (fs ! j) \<le> startIndex (fs ! k) \<and> startIndex (fs ! j) < startIndex (fs ! k))"
proof -
  assume e: "process_inline_markdown t b = (r, fs)"
  obtain r' fs' where e': "process_inline_markdown t b = (r', fs')"
    and ch: "style_chain b fs' (b + int (length r'))"
    by (rule process_inline_markdown_inv)
  from e e' have ch: "style_chain b fs (b + int (length r))" using ch by simp
  note B = style_chain_bounds [OF ch]
  have "endIndex (fs ! j) \<le> startIndex (fs ! k) \<and> startIndex (fs ! j) < startIndex (fs ! k)"
    if "j < k" "k < length fs" for j k
  proof -
    from that have "fs ! j \<in> set fs" by simp
    with B have "startIndex (fs ! j) < endIndex (fs ! j)" by blast
    with style_chain_sorted [OF ch that] show ?thesis by simp
  qed
  with B show ?thesis by blast
qed

text \<open>The theorem on a line with a bold and an italic span.\<close>

theorem text_style_ranges_well_formed_witness:
  "process_inline_markdown ''x __y__ *z*'' 1 =
     (''x y z'', [UpdateTextStyle 3 4 (Flag Bold), UpdateTextStyle 5 6 (Flag Italic)]) \<and>
   startIndex (UpdateTextStyle 3 4 (Flag Bold)) < endIndex (UpdateTextStyle 3 4 (Flag Bold)) \<and>
   endIndex (UpdateTextStyle 3 4 (Flag Bold)) \<le> startIndex (UpdateTextStyle 5 6 (Flag Italic))"
proof -
  have e: "process_inline_markdown ''x __y__ *z*'' 1 =
     (''x y z'', [UpdateTextStyle 3 4 (Flag Bold), UpdateTextStyle 5 6 (Flag Italic)])"
    by code_simp
  from text_style_ranges_well_formed [OF e] have
    "startIndex (UpdateTextStyle 3 4 (Flag Bold)) < endIndex (UpdateTextStyle 3 4 (Flag Bold))"
    by simp
  moreover from text_style_ranges_well_formed [OF e] have
    "endIndex ([UpdateTextStyle 3 4 (Flag Bold), UpdateTextStyle 5 6 (Flag Italic)] ! 0)
       \<le> startIndex ([UpdateTextStyle 3 4 (Flag Bold), UpdateTextStyle 5 6 (Flag Italic)] ! 1)"
    by (elim conjE allE [of _ 0] allE [of _ 1]) simp
  ultimately show ?thesis using e by simp
qed

section \<open>Markup without its closing delimiter\<close>

lemma delimited_closer:
  assumes "delimited d s = Some x" and d: "d \<noteq> []"
  shows "hd d \<in> set (drop 2 s)"
proof -
  note D = delimited_SomeD [OF assms(1)]
  define k where "k = length d + length x"
  define n where "n = length x + 2 * length d"
  from D(1) d have k2: "2 \<le> k" by (cases x; cases d) (auto simp: k_def)
  have kn: "k < n" using d by (cases d) (auto simp: k_def n_def)
  have n: "n \<le> length s"
    by (rule take_eq_lengthD [OF D(2) [folded n_def]]) (simp add: n_def)
  have "s ! k = take n s ! k" using kn by simp
  also have "\<dots> = (d @ x @ d) ! k" using D(2) by (simp add: n_def)
  also have "\<dots> = hd d" using d by (simp add: k_def nth_append hd_conv_nth)
  finally have "s ! k = hd d" .
  moreover have "drop 2 s ! (k - 2) = s ! (2 + (k - 2))" using k2 kn n by (subst nth_drop) simp_all
  moreover have "2 + (k - 2) = k" using k2 by simp
  moreover have "k - 2 < length (drop 2 s)" using k2 kn n by simp
  ultimately show ?thesis by (metis nth_mem)
qed

lemma link_span_closers:
  assumes "link_span s = Some (x, url)"
  shows "CHR '']'' \<in> set s" and "CHR '')'' \<in> set s"
proof -
  note D = link_span_SomeD [OF assms]
  have "set (take (length x + length url + 4) s) \<subseteq> set s" by (rule set_take_subset)
  then show "CHR '']'' \<in> set s" and "CHR '')'' \<in> set s" unfolding D(3) by auto
qed

lemma unterminated_no_match:
  assumes "CHR ''*'' \<notin> set (drop 2 s)" and "CHR ''_'' \<notin> set (drop 2 s)"
    and "CHR '']'' \<notin> set s \<or> CHR '')'' \<notin> set s"
  shows "first_pattern patterns s = None"
proof -
  have "delimited ''**'' s = None" using delimited_closer [of "''**''" s] assms(1) by fastforce
  moreover have "delimited ''*'' s = None" using delimited_closer [of "''*''" s] assms(1) by fastforce
  moreover have "delimited ''__'' s = None" using delimited_closer [of "''__''" s] assms(2) by fastforce
  moreover have "delimited ''_'' s = None" using delimited_closer [of "''_''" s] assms(2) by fastforce
  moreover have "link_span s = None"
  proof (cases "link_span s")
    case None
    then show ?thesis .
  next
    case (Some a)
    then obtain x url where "link_span s = Some (x, url)" by (cases a) auto
    from link_span_closers [OF this] assms(3) show ?thesis by simp
  qed
  ultimately show ?thesis by (simp add: first_pattern_spec)
qed

lemma first_pattern_None_iff: "first_pattern patterns s = None \<longleftrightarrow> spec_rule s = None"
  by (simp add: first_pattern_spec spec_rule_def split: option.splits)

lemma inline_loop_verbatim:
  "(\<And>j. i \<le> j \<Longrightarrow> j < length t \<Longrightarrow> first_pattern patterns (drop j t) = None) \<Longrightarrow>
     inline_loop t offset i result reqs = (result @ drop i t, reqs)"
proof (induction "length t - i" arbitrary: i result rule: less_induct)
  case less
  show ?case
  proof (cases "i < length t")
    case False
    then show ?thesis by (simp add: inline_loop_done)
  next
    case True
    then have n: "spec_rule (drop i t) = None"
      using less.prems [of i] by (simp add: first_pattern_None_iff)
    from True have "length t - (i + 1) < length t - i" by simp
    from less.hyps [OF this, of "result @ [t ! i]"] less.prems
    have "inline_loop t offset (i + 1) (result @ [t ! i]) reqs = ((result @ [t ! i]) @ drop (i + 1) t, reqs)"
      by simp
    then show ?thesis using True
      by (simp add: inline_loop_unfold n Cons_nth_drop_Suc)
  qed
qed

lemma first_pattern_groups:
  "first_pattern patterns s = Some (m, ft) \<Longrightarrow> length (snd m) = (if ft = Link then 2 else 1)"
  by (auto simp: first_pattern_spec split: option.splits)

text \<open>
  The strings a pattern matches, exactly: a pattern matches only where its closing
  delimiter stands.
\<close>

lemma until_delim_complete:
  assumes "d \<noteq> []" and "CHR ''\<newline>'' \<notin> set x"
  shows "until_delim d (x @ d @ rest) \<noteq> None"
  using assms(2)
proof (induction x)
  case Nil
  from assms(1) obtain a d' where "d = a # d'" by (cases d) auto
  then show ?case by simp
next
  case (Cons a x)
  then show ?case by (cases "take (length d) ((a # x) @ d @ rest) = d") auto
qed

lemma delimited_iff:
  assumes "d \<noteq> []"
  shows "delimited d s \<noteq> None \<longleftrightarrow>
     (\<exists>x rest. s = d @ x @ d @ rest \<and> x \<noteq> [] \<and> CHR ''\<newline>'' \<notin> set x)"
proof
  assume "delimited d s \<noteq> None"
  then obtain x where x: "delimited d s = Some x" by auto
  note D = delimited_SomeD [OF x]
  have "s = take (length x + 2 * length d) s @ drop (length x + 2 * length d) s" by simp
  then have "s = d @ x @ d @ drop (length x + 2 * length d) s" by (simp only: D(2) append_assoc)
  with D(1,3) show "\<exists>x rest. s = d @ x @ d @ rest \<and> x \<noteq> [] \<and> CHR ''\<newline>'' \<notin> set x"
    by blast
next
  assume "\<exists>x rest. s = d @ x @ d @ rest \<and> x \<noteq> [] \<and> CHR ''\<newline>'' \<notin> set x"
  then obtain x rest where s: "s = d @ x @ d @ rest" and ne: "x \<noteq> []"
    and nl: "CHR ''\<newline>'' \<notin> set x"
    by blast
  from ne obtain a x' where x: "x = a # x'" by (cases x) auto
  from nl have a: "a \<noteq> CHR ''\<newline>''" and nl': "CHR ''\<newline>'' \<notin> set x'" by (auto simp: x)
  from until_delim_complete [OF assms nl', of rest]
  obtain y where "until_delim d (x' @ d @ rest) = Some y" by auto
  then show "delimited d s \<noteq> None" using a by (simp add: delimited_def s x)
qed

lemma link_span_iff:
  "link_span s \<noteq> None \<longleftrightarrow>
     (\<exists>x url rest. s = ''['' @ x @ '']('' @ url @ '')'' @ rest \<and> x \<noteq> [] \<and> url \<noteq> [] \<and>
        CHR '']'' \<notin> set x \<and> CHR '')'' \<notin> set url)"
proof
  assume "link_span s \<noteq> None"
  then obtain x url where l: "link_span s = Some (x, url)" by auto
  note D = link_span_SomeD [OF l]
  have "s = take (length x + length url + 4) s @ drop (length x + length url + 4) s" by simp
  then have "s = ''['' @ x @ '']('' @ url @ '')'' @ drop (length x + length url + 4) s"
    by (simp only: D(3) append_assoc)
  with D(1,2,4,5) show "\<exists>x url rest. s = ''['' @ x @ '']('' @ url @ '')'' @ rest \<and> x \<noteq> [] \<and>
      url \<noteq> [] \<and> CHR '']'' \<notin> set x \<and> CHR '')'' \<notin> set url"
    by blast
next
  assume "\<exists>x url rest. s = ''['' @ x @ '']('' @ url @ '')'' @ rest \<and> x \<noteq> [] \<and> url \<noteq> [] \<and>
        CHR '']'' \<notin> set x \<and> CHR '')'' \<notin> set url"
  then obtain x url rest where s: "s = ''['' @ x @ '']('' @ url @ '')'' @ rest"
    and ne: "x \<noteq> []" "url \<noteq> []" and nx: "CHR '']'' \<notin> set x" and nu: "CHR '')'' \<notin> set url"
    by blast
  have tx: "takeWhile (\<lambda>c. c \<noteq> CHR '']'') (x @ CHR '']'' # ys) = x" for ys
    using nx by (induction x) auto
  have dx: "dropWhile (\<lambda>c. c \<noteq> CHR '']'') (x @ CHR '']'' # ys) = CHR '']'' # ys" for ys
    using nx by (induction x) auto
  have tu: "takeWhile (\<lambda>c. c \<noteq> CHR '')'') (url @ CHR '')'' # ys) = url" for ys
    using nu by (induction url) auto
  have du: "dropWhile (\<lambda>c. c \<noteq> CHR '')'') (url @ CHR '')'' # ys) = CHR '')'' # ys" for ys
    using nu by (induction url) auto
  show "link_span s \<noteq> None"
    using ne by (simp add: link_span_def s tx dx tu du Let_def)
qed

lemma first_pattern_None:
  "first_pattern ps s = None \<longleftrightarrow> (\<forall>p \<in> set ps. re_match (fst p) s = None)"
  by (induction ps) (auto split: option.splits)

lemma pattern_nth:
  "re_match (fst (patterns ! 0)) s \<noteq> None \<longleftrightarrow> delimited ''**'' s \<noteq> None"
  "re_match (fst (patterns ! 1)) s \<noteq> None \<longleftrightarrow> delimited ''__'' s \<noteq> None"
  "re_match (fst (patterns ! 2)) s \<noteq> None \<longleftrightarrow> delimited ''*'' s \<noteq> None"
  "re_match (fst (patterns ! 3)) s \<noteq> None \<longleftrightarrow> delimited ''_'' s \<noteq> None"
  "re_match (fst (patterns ! 4)) s \<noteq> None \<longleftrightarrow> link_span s \<noteq> None"
  by (auto simp: patterns_def re_match_bold re_match_italic re_match_link split: option.splits)

lemma inline_loop_copy:
  "i < length t \<Longrightarrow> first_pattern patterns (drop i t) = None \<Longrightarrow>
     inline_loop t offset i result reqs = inline_loop t offset (i + 1) (result @ [t ! i]) reqs"
  by (subst inline_loop.simps) simp

text \<open>
  The text of the example with an unmatched delimiter is the line and its newline, and
  then the newline of the empty last line: it is not the input unchanged. And markup
  without its closing delimiter is not always copied: \<^verbatim>\<open>**a*\<close> has no closing \<^verbatim>\<open>**\<close>, the
  bold pattern does not match it, but the italic pattern does, with the inner text
  \<^verbatim>\<open>*a\<close>.
\<close>

theorem unmatched_example_text_differs:
  "fst (parse_markdown_to_doc_requests ''a *b\<newline>'') \<noteq> ''a *b\<newline>'' \<and>
   re_match (fst (patterns ! 0)) ''**a*'' = None \<and>
   process_inline_markdown ''**a*'' 1 = (''*a'', [UpdateTextStyle 1 3 (Flag Italic)])"
  by code_simp

text \<open>
  C7, amended: a pattern matches only where its closing delimiter is present. A bold or
  italic pattern matches exactly the strings that start with its delimiter, an inner
  text of at least one character and without newline, and the delimiter again; the link
  pattern matches exactly the strings that start with \<^verbatim>\<open>[\<close>, a text, \<^verbatim>\<open>](\<close>, a target and
  \<^verbatim>\<open>)\<close>. The formatter finds no match at a position exactly when none of the five
  patterns matches there (as where neither \<^verbatim>\<open>*\<close> nor \<^verbatim>\<open>_\<close> comes again from the third
  character on and a closing bracket or parenthesis is missing); it then copies the one
  character and goes on at the next position, and a line in which no pattern matches at
  any position is returned unchanged, with no request. An opening delimiter whose own
  pattern does not match is copied only if no pattern of lower priority matches there:
  at \<^verbatim>\<open>**a*\<close> the bold pattern does not match and the italic pattern does. No step can
  fail: the loops end, and every group the formatter reads from a match exists (two for
  a link, one otherwise). On the input \<^verbatim>\<open>"a *b\n"\<close> the converter returns the plain text
  \<^verbatim>\<open>"a *b\n\n"\<close> (the line unchanged with its newline, then the newline of the empty
  last line) and no request.
\<close>

theorem unmatched_markup_is_copied:
  "parse_markdown_to_doc_requests ''a *b\<newline>'' = (''a *b\<newline>\<newline>'', []) \<and>
   (re_match (fst (patterns ! 0)) s \<noteq> None \<longleftrightarrow>
      (\<exists>x rest. s = ''**'' @ x @ ''**'' @ rest \<and> x \<noteq> [] \<and> CHR ''\<newline>'' \<notin> set x)) \<and>
   (re_match (fst (patterns ! 1)) s \<noteq> None \<longleftrightarrow>
      (\<exists>x rest. s = ''__'' @ x @ ''__'' @ rest \<and> x \<noteq> [] \<and> CHR ''\<newline>'' \<notin> set x)) \<and>
   (re_match (fst (patterns ! 2)) s \<noteq> None \<longleftrightarrow>
      (\<exists>x rest. s = ''*'' @ x @ ''*'' @ rest \<and> x \<noteq> [] \<and> CHR ''\<newline>'' \<notin> set x)) \<and>
   (re_match (fst (patterns ! 3)) s \<noteq> None \<longleftrightarrow>
      (\<exists>x rest. s = ''_'' @ x @ ''_'' @ rest \<and> x \<noteq> [] \<and> CHR ''\<newline>'' \<notin> set x)) \<and>
   (re_match (fst (patterns ! 4)) s \<noteq> None \<longleftrightarrow>
      (\<exists>x url rest. s = ''['' @ x @ '']('' @ url @ '')'' @ rest \<and> x \<noteq> [] \<and> url \<noteq> [] \<and>
         CHR '']'' \<notin> set x \<and> CHR '')'' \<notin> set url)) \<and>
   length patterns = 5 \<and>
   (first_pattern patterns s = None \<longleftrightarrow> (\<forall>k < length patterns. re_match (fst (patterns ! k)) s = None)) \<and>
   (CHR ''*'' \<notin> set (drop 2 s) \<and> CHR ''_'' \<notin> set (drop 2 s) \<and>
      (CHR '']'' \<notin> set s \<or> CHR '')'' \<notin> set s) \<longrightarrow> first_pattern patterns s = None) \<and>
   (i < length t \<and> first_pattern patterns (drop i t) = None \<longrightarrow>
      inline_loop t offset i result reqs = inline_loop t offset (i + 1) (result @ [t ! i]) reqs) \<and>
   ((\<forall>i < length t. first_pattern patterns (drop i t) = None) \<longrightarrow>
      process_inline_markdown t b = (t, [])) \<and>
   (first_pattern patterns s = Some (m, ft) \<longrightarrow> length (snd m) = (if ft = Link then 2 else 1)) \<and>
   re_match (fst (patterns ! 0)) ''**a*'' = None \<and>
   first_pattern patterns ''**a*'' = Some ((4, [''*a'']), Italic)"
proof -
  have c1: "parse_markdown_to_doc_requests ''a *b\<newline>'' = (''a *b\<newline>\<newline>'', [])"
    by code_simp
  have c2: "re_match (fst (patterns ! 0)) s \<noteq> None \<longleftrightarrow>
      (\<exists>x rest. s = ''**'' @ x @ ''**'' @ rest \<and> x \<noteq> [] \<and> CHR ''\<newline>'' \<notin> set x)"
    unfolding pattern_nth(1) by (rule delimited_iff) simp
  have c3: "re_match (fst (patterns ! 1)) s \<noteq> None \<longleftrightarrow>
      (\<exists>x rest. s = ''__'' @ x @ ''__'' @ rest \<and> x \<noteq> [] \<and> CHR ''\<newline>'' \<notin> set x)"
    unfolding pattern_nth(2) by (rule delimited_iff) simp
  have c4: "re_match (fst (patterns ! 2)) s \<noteq> None \<longleftrightarrow>
      (\<exists>x rest. s = ''*'' @ x @ ''*'' @ rest \<and> x \<noteq> [] \<and> CHR ''\<newline>'' \<notin> set x)"
    unfolding pattern_nth(3) by (rule delimited_iff) simp
  have c5: "re_match (fst (patterns ! 3)) s \<noteq> None \<longleftrightarrow>
      (\<exists>x rest. s = ''_'' @ x @ ''_'' @ rest \<and> x \<noteq> [] \<and> CHR ''\<newline>'' \<notin> set x)"
    unfolding pattern_nth(4) by (rule delimited_iff) simp
  have c6: "re_match (fst (patterns ! 4)) s \<noteq> None \<longleftrightarrow>
      (\<exists>x url rest. s = ''['' @ x @ '']('' @ url @ '')'' @ rest \<and> x \<noteq> [] \<and> url \<noteq> [] \<and>
         CHR '']'' \<notin> set x \<and> CHR '')'' \<notin> set url)"
    unfolding pattern_nth(5) by (rule link_span_iff)
  have c7: "length patterns = 5" by (simp add: patterns_def)
  have c8: "first_pattern patterns s = None \<longleftrightarrow>
      (\<forall>k < length patterns. re_match (fst (patterns ! k)) s = None)"
    unfolding first_pattern_None by (metis in_set_conv_nth)
  have c9: "CHR ''*'' \<notin> set (drop 2 s) \<and> CHR ''_'' \<notin> set (drop 2 s) \<and>
      (CHR '']'' \<notin> set s \<or> CHR '')'' \<notin> set s) \<longrightarrow> first_pattern patterns s = None"
    using unterminated_no_match [of s] by blast
  have c10: "i < length t \<and> first_pattern patterns (drop i t) = None \<longrightarrow>
      inline_loop t offset i result reqs = inline_loop t offset (i + 1) (result @ [t ! i]) reqs"
    using inline_loop_copy [of i t offset result reqs] by blast
  have c11: "(\<forall>i < length t. first_pattern patterns (drop i t) = None) \<longrightarrow>
      process_inline_markdown t b = (t, [])"
    using inline_loop_verbatim [of 0 t b "[]" "[]"]
    by (simp add: process_inline_markdown_def)
  have c12: "first_pattern patterns s = Some (m, ft) \<longrightarrow>
      length (snd m) = (if ft = Link then 2 else 1)"
    using first_pattern_groups [of s m ft] by blast
  have c13: "re_match (fst (patterns ! 0)) ''**a*'' = None" by code_simp
  have c14: "first_pattern patterns ''**a*'' = Some ((4, [''*a'']), Italic)" by code_simp
  show ?thesis
    by (rule conjI [OF c1 conjI [OF c2 conjI [OF c3 conjI [OF c4 conjI [OF c5 conjI [OF c6
          conjI [OF c7 conjI [OF c8 conjI [OF c9 conjI [OF c10 conjI [OF c11 conjI [OF c12
          conjI [OF c13 c14]]]]]]]]]]]]])
qed

text \<open>The theorem at \<^verbatim>\<open>*b\<close>, and on the line \<^verbatim>\<open>a*\<close>.\<close>

theorem unmatched_markup_is_copied_witness:
  "CHR ''*'' \<notin> set (drop 2 ''*b'') \<and> CHR ''_'' \<notin> set (drop 2 ''*b'') \<and> CHR '']'' \<notin> set ''*b'' \<and>
   first_pattern patterns ''*b'' = None \<and>
   re_match (fst (patterns ! 2)) ''*b'' = None \<and>
   (1::nat) < length ''a*'' \<and>
   first_pattern patterns (drop 0 ''a*'') = None \<and> first_pattern patterns (drop 1 ''a*'') = None \<and>
   inline_loop ''a*'' 1 1 ''a'' [] = inline_loop ''a*'' 1 (1 + 1) (''a'' @ [''a*'' ! 1]) [] \<and>
   process_inline_markdown ''a*'' 1 = (''a*'', [])"
proof -
  have h: "\<forall>i < length ''a*''. first_pattern patterns (drop i ''a*'') = None"
  proof (intro allI impI)
    fix i :: nat
    assume "i < length ''a*''"
    then have "i = 0 \<or> i = 1" by auto
    then show "first_pattern patterns (drop i ''a*'') = None"
      by (elim disjE; hypsubst) code_simp+
  qed
  have 0: "first_pattern patterns (drop 0 ''a*'') = None" and 1: "first_pattern patterns (drop 1 ''a*'') = None"
    by code_simp+
  have l: "(1::nat) < length ''a*''" by simp
  have p: "length patterns = 5" by (simp add: patterns_def)
  note T = unmatched_markup_is_copied [of "''*b''" 1 "''a*''" 1 "''a''" "[]" 1]
  from T have n: "first_pattern patterns ''*b'' = None" by simp
  from T n p have r: "re_match (fst (patterns ! 2)) ''*b'' = None" by simp
  from T l 1 have s: "inline_loop ''a*'' 1 1 ''a'' [] = inline_loop ''a*'' 1 (1 + 1) (''a'' @ [''a*'' ! 1]) []"
    by blast
  from T h have w: "process_inline_markdown ''a*'' 1 = (''a*'', [])" by blast
  from n r l 0 1 s w show ?thesis by simp
qed

section \<open>The block scanner, block by block\<close>

lemma collect_items_takeWhile:
  "collect_items rx lines i items =
     (i + length (takeWhile (\<lambda>l. re_match rx l \<noteq> None) (drop i lines)),
      items @ map (re_sub_empty rx) (takeWhile (\<lambda>l. re_match rx l \<noteq> None) (drop i lines)))"
proof (induction rx lines i items rule: collect_items.induct)
  case (1 rx lines i items)
  show ?case
  proof (cases "i < length lines \<and> re_match rx (lines ! i) \<noteq> None")
    case True
    then have d: "drop i lines = lines ! i # drop (i + 1) lines"
      by (simp add: Cons_nth_drop_Suc)
    from True "1.IH" show ?thesis
      by (subst collect_items.simps) (auto simp: d)
  next
    case False
    show ?thesis
    proof (cases "i < length lines")
      case True
      then have d: "drop i lines = lines ! i # drop (i + 1) lines"
        by (simp add: Cons_nth_drop_Suc)
      from True False show ?thesis by (subst collect_items.simps) (auto simp: d)
    next
      case False
      then show ?thesis by (subst collect_items.simps) simp
    qed
  qed
qed

lemma list_run_takeWhile:
  "list_run rx preset lines (i, p, c, f) =
     (let run = takeWhile (\<lambda>l. re_match rx l \<noteq> None) (drop i lines);
          list_text = list_text_of rx run
      in (i + length run, p @ list_text, c + int (length list_text),
          f @ [CreateParagraphBullets c (c + int (length list_text)) preset]))"
  by (simp add: list_run_def collect_items_takeWhile Let_def list_text_of_def)

lemma count_list_str_join:
  "xs \<noteq> [] \<Longrightarrow> (\<And>x. x \<in> set xs \<Longrightarrow> c \<notin> set x) \<Longrightarrow>
     count_list (str_join [c] xs) c = length xs - 1"
proof (induction "[c]" xs rule: str_join.induct)
  case 1
  then show ?case by simp
next
  case (2 x)
  then show ?case by (simp add: count_list_0_iff)
next
  case (3 x y ys)
  then show ?case by (simp add: count_list_0_iff)
qed

lemma re_sub_empty_subset: "set (re_sub_empty rx l) \<subseteq> set l"
  by (auto simp: re_sub_empty_def split: option.splits dest: in_set_dropD)

lemma first_atom:
  assumes "match_atoms (Atom cl q cap # as) dollar s = Some m"
    and "\<And>lo hi. q = Between lo hi \<Longrightarrow> 1 \<le> lo"
  shows "s \<noteq> [] \<and> cmatches cl (hd s)"
proof -
  from assms(1) obtain k where k: "k \<in> set (counts q (length (takeWhile (cmatches cl) s)))"
    by (auto simp: match_atoms_Cons dest!: first_some_SomeD)
  have "1 \<le> k" using k assms(2) by (rule counts_positive)
  with counts_le [OF k] have "takeWhile (cmatches cl) s \<noteq> []" by auto
  then show ?thesis by (cases s) (auto split: if_splits)
qed

lemma heading_match:
  assumes "re_match heading_rx l = Some m"
  shows "length (snd m) = 2" and "set (match_group m 2) \<subseteq> set l" and "l \<noteq> []"
    and "hd l = CHR ''#''"
proof -
  obtain n gs where m: "m = (n, gs)" by (cases m)
  from assms have ma: "match_atoms (fst heading_rx) (snd heading_rx) l = Some (n, gs)"
    by (simp add: re_match_def m)
  from match_atoms_groups [OF ma] have len: "length gs = 2" and sub: "\<forall>g \<in> set gs. set g \<subseteq> set l"
    by (auto simp: heading_rx_def)
  show "length (snd m) = 2" using len by (simp add: m)
  from len have "gs ! 1 \<in> set gs" by simp
  with sub show "set (match_group m 2) \<subseteq> set l" by (auto simp: match_group_def m)
  from first_atom [of "Lit CHR ''#''" "Between 1 6" True _ True l "(n, gs)"] ma
  show "l \<noteq> []" and "hd l = CHR ''#''" by (auto simp: heading_rx_def)
qed

lemma bullet_not_heading:
  "re_match bullet_rx l \<noteq> None \<Longrightarrow> re_match heading_rx l = None"
  using heading_match(3,4) [of l]
  by (cases "re_match heading_rx l") (auto simp: re_match_bullet split: list.splits if_splits)

lemma numbered_not_heading:
  assumes "re_match numbered_rx l \<noteq> None"
  shows "re_match heading_rx l = None" and "re_match bullet_rx l = None"
proof -
  from assms obtain m where "match_atoms (fst numbered_rx) (snd numbered_rx) l = Some m"
    by (auto simp: re_match_def)
  from first_atom [of Digit Plus False _ False l m] this
  have l: "l \<noteq> []" "is_digit (hd l)" by (auto simp: numbered_rx_def)
  then have "hd l \<noteq> CHR ''#''" "hd l \<noteq> CHR ''-''" "hd l \<noteq> CHR ''*''"
    by (auto simp: is_digit_def)
  then show "re_match heading_rx l = None" and "re_match bullet_rx l = None"
    using heading_match(3,4) [of l] l(1)
    by (cases "re_match heading_rx l"; auto simp: re_match_bullet split: list.splits if_splits)+
qed


lemma block_step_heading:
  assumes "re_match heading_rx (lines ! i) = Some m"
  shows "block_step lines (i, p, c, f) =
     (i + 1, p @ (match_group m 2 @ ''\<newline>''), c + int (length (match_group m 2 @ ''\<newline>'')),
      f @ [UpdateParagraphStyle c (c + int (length (match_group m 2 @ ''\<newline>'')))
             (''HEADING_'' @ str_nat (length (match_group m 1)))])"
  using assms by (simp add: block_step_def Let_def)

lemma block_step_bullet:
  assumes "re_match bullet_rx (lines ! i) \<noteq> None"
  shows "block_step lines (i, p, c, f) = list_run bullet_rx BULLET_DISC_CIRCLE_SQUARE lines (i, p, c, f)"
  using assms bullet_not_heading [OF assms] by (simp add: block_step_def Let_def)

lemma block_step_numbered:
  assumes "re_match numbered_rx (lines ! i) \<noteq> None"
  shows "block_step lines (i, p, c, f) = list_run numbered_rx NUMBERED_DECIMAL_ALPHA_ROMAN lines (i, p, c, f)"
  using assms numbered_not_heading [OF assms] by (simp add: block_step_def Let_def)

lemma block_step_paragraph:
  assumes "re_match heading_rx (lines ! i) = None" and "re_match bullet_rx (lines ! i) = None"
    and "re_match numbered_rx (lines ! i) = None"
  shows "block_step lines (i, p, c, f) =
     (i + 1, p @ (fst (process_inline_markdown (lines ! i) c) @ ''\<newline>''),
      c + int (length (fst (process_inline_markdown (lines ! i) c) @ ''\<newline>'')),
      f @ snd (process_inline_markdown (lines ! i) c))"
proof -
  obtain r fs where e: "process_inline_markdown (lines ! i) c = (r, fs)"
    and "r = [] \<longleftrightarrow> lines ! i = []"
    by (rule process_inline_markdown_inv)
  with assms show ?thesis by (auto simp: block_step_def Let_def)
qed

lemma list_run_inv:
  assumes i: "i < length lines" and m: "re_match rx (lines ! i) \<noteq> None"
  obtains i' e where
    "list_run rx preset lines (i, p, c, f) =
       (i', p @ e, c + int (length e), f @ [CreateParagraphBullets c (c + int (length e)) preset])"
    and "i < i'" and "i' \<le> length lines"
    and "(\<forall>l \<in> set lines. CHR ''\<newline>'' \<notin> set l) \<longrightarrow> count_list e CHR ''\<newline>'' = i' - i"
proof -
  define run where "run = takeWhile (\<lambda>l. re_match rx l \<noteq> None) (drop i lines)"
  define e where "e = list_text_of rx run"
  from i have d: "drop i lines = lines ! i # drop (i + 1) lines"
    by (simp add: Cons_nth_drop_Suc)
  have ne: "run \<noteq> []" using m by (simp add: run_def d)
  have "length run \<le> length (drop i lines)" unfolding run_def by (rule length_takeWhile_le)
  then have le: "i + length run \<le> length lines" using i by simp
  have sub: "set run \<subseteq> set lines" unfolding run_def
    by (auto dest: set_takeWhileD in_set_dropD)
  have cnt: "count_list e CHR ''\<newline>'' = (i + length run) - i"
    if nl: "\<forall>l \<in> set lines. CHR ''\<newline>'' \<notin> set l"
  proof -
    have "CHR ''\<newline>'' \<notin> set x" if "x \<in> set (map (re_sub_empty rx) run)" for x
      using that nl sub re_sub_empty_subset [of rx] by fastforce
    with ne have "count_list (str_join ''\<newline>'' (map (re_sub_empty rx) run)) CHR ''\<newline>''
        = length (map (re_sub_empty rx) run) - 1"
      by (intro count_list_str_join) simp_all
    with ne show ?thesis by (cases run) (simp_all add: e_def list_text_of_def)
  qed
  show ?thesis
  proof (rule that [of "i + length run" e])
    show "list_run rx preset lines (i, p, c, f) =
       (i + length run, p @ e, c + int (length e),
        f @ [CreateParagraphBullets c (c + int (length e)) preset])"
      by (simp add: list_run_takeWhile Let_def run_def e_def)
    show "i < i + length run" using ne by simp
    show "i + length run \<le> length lines" by (rule le)
    show "(\<forall>l \<in> set lines. CHR ''\<newline>'' \<notin> set l) \<longrightarrow>
        count_list e CHR ''\<newline>'' = i + length run - i"
      using cnt by blast
  qed
qed

lemma block_step_inv:
  assumes i: "i < length lines"
  obtains i' e fs where "block_step lines (i, p, c, f) = (i', p @ e, c + int (length e), f @ fs)"
    and "i < i'" and "i' \<le> length lines"
    and "\<forall>r \<in> set fs. c \<le> startIndex r \<and> startIndex r \<le> endIndex r \<and> endIndex r \<le> c + int (length e)"
    and "(\<forall>l \<in> set lines. CHR ''\<newline>'' \<notin> set l) \<longrightarrow> count_list e CHR ''\<newline>'' = i' - i"
proof -
  consider (bullet) "re_match bullet_rx (lines ! i) \<noteq> None"
    | (numbered) "re_match numbered_rx (lines ! i) \<noteq> None"
    | (plain) "re_match heading_rx (lines ! i) = None" and "re_match bullet_rx (lines ! i) = None"
        and "re_match numbered_rx (lines ! i) = None"
    | (heading) m where "re_match heading_rx (lines ! i) = Some m"
    by (cases "re_match heading_rx (lines ! i)"; cases "re_match bullet_rx (lines ! i)";
        cases "re_match numbered_rx (lines ! i)") auto
  then show ?thesis
  proof cases
    case heading
    define e where "e = match_group m 2 @ ''\<newline>''"
    show ?thesis
    proof (rule that [of "i + 1" e])
      show "block_step lines (i, p, c, f) = (i + 1, p @ e, c + int (length e),
          f @ [UpdateParagraphStyle c (c + int (length e))
                 (''HEADING_'' @ str_nat (length (match_group m 1)))])"
        unfolding e_def by (rule block_step_heading [OF heading])
      show "i < i + 1" by simp
      show "i + 1 \<le> length lines" using i by simp
      show "\<forall>r \<in> set [UpdateParagraphStyle c (c + int (length e))
                 (''HEADING_'' @ str_nat (length (match_group m 1)))].
          c \<le> startIndex r \<and> startIndex r \<le> endIndex r \<and> endIndex r \<le> c + int (length e)"
        by simp
      show "(\<forall>l \<in> set lines. CHR ''\<newline>'' \<notin> set l) \<longrightarrow>
          count_list e CHR ''\<newline>'' = i + 1 - i"
      proof
        assume "\<forall>l \<in> set lines. CHR ''\<newline>'' \<notin> set l"
        with i have "CHR ''\<newline>'' \<notin> set (lines ! i)" by simp
        with heading_match(2) [OF heading] have "CHR ''\<newline>'' \<notin> set (match_group m 2)" by auto
        then show "count_list e CHR ''\<newline>'' = i + 1 - i" by (simp add: e_def)
      qed
    qed
  next
    case bullet
    obtain i' e where
      "list_run bullet_rx BULLET_DISC_CIRCLE_SQUARE lines (i, p, c, f) =
         (i', p @ e, c + int (length e),
          f @ [CreateParagraphBullets c (c + int (length e)) BULLET_DISC_CIRCLE_SQUARE])"
      and "i < i'" and "i' \<le> length lines"
      and "(\<forall>l \<in> set lines. CHR ''\<newline>'' \<notin> set l) \<longrightarrow> count_list e CHR ''\<newline>'' = i' - i"
      by (rule list_run_inv [OF i bullet, where p = p and c = c and f = f])
    then show ?thesis
      by (intro that [of i' e "[CreateParagraphBullets c (c + int (length e)) BULLET_DISC_CIRCLE_SQUARE]"])
        (simp_all add: block_step_bullet [OF bullet])
  next
    case numbered
    obtain i' e where
      "list_run numbered_rx NUMBERED_DECIMAL_ALPHA_ROMAN lines (i, p, c, f) =
         (i', p @ e, c + int (length e),
          f @ [CreateParagraphBullets c (c + int (length e)) NUMBERED_DECIMAL_ALPHA_ROMAN])"
      and "i < i'" and "i' \<le> length lines"
      and "(\<forall>l \<in> set lines. CHR ''\<newline>'' \<notin> set l) \<longrightarrow> count_list e CHR ''\<newline>'' = i' - i"
      by (rule list_run_inv [OF i numbered, where p = p and c = c and f = f])
    then show ?thesis
      by (intro that [of i' e "[CreateParagraphBullets c (c + int (length e)) NUMBERED_DECIMAL_ALPHA_ROMAN]"])
        (simp_all add: block_step_numbered [OF numbered])
  next
    case plain
    obtain r fs where e: "process_inline_markdown (lines ! i) c = (r, fs)"
      and ch: "style_chain c fs (c + int (length r))" and sub: "set r \<subseteq> set (lines ! i)"
      by (rule process_inline_markdown_inv)
    show ?thesis
    proof (rule that [of "i + 1" "r @ ''\<newline>''" fs])
      show "block_step lines (i, p, c, f) =
          (i + 1, p @ r @ ''\<newline>'', c + int (length (r @ ''\<newline>'')), f @ fs)"
        using block_step_paragraph [OF plain, of p c f] by (simp add: e)
      show "i < i + 1" by simp
      show "i + 1 \<le> length lines" using i by simp
      show "\<forall>q \<in> set fs. c \<le> startIndex q \<and> startIndex q \<le> endIndex q \<and>
          endIndex q \<le> c + int (length (r @ ''\<newline>''))"
        using style_chain_bounds [OF ch] by fastforce
      show "(\<forall>l \<in> set lines. CHR ''\<newline>'' \<notin> set l) \<longrightarrow>
          count_list (r @ ''\<newline>'') CHR ''\<newline>'' = i + 1 - i"
      proof
        assume "\<forall>l \<in> set lines. CHR ''\<newline>'' \<notin> set l"
        with i have "CHR ''\<newline>'' \<notin> set (lines ! i)" by simp
        with sub have "CHR ''\<newline>'' \<notin> set r" by auto
        then show "count_list (r @ ''\<newline>'') CHR ''\<newline>'' = i + 1 - i" by simp
      qed
    qed
  qed
qed

lemma scan_loop_unfold:
  "scan_loop lines (i, p, c, f) =
     (if i < length lines then scan_loop lines (block_step lines (i, p, c, f)) else (i, p, c, f))"
  by (subst scan_loop.simps) simp

lemma scan_loop_inv:
  assumes "i \<le> length lines"
  obtains e fs where "scan_loop lines (i, p, c, f) = (length lines, p @ e, c + int (length e), f @ fs)"
    and "\<forall>r \<in> set fs. c \<le> startIndex r \<and> startIndex r \<le> endIndex r \<and> endIndex r \<le> c + int (length e)"
    and "(\<forall>l \<in> set lines. CHR ''\<newline>'' \<notin> set l) \<longrightarrow> count_list e CHR ''\<newline>'' = length lines - i"
  using assms
proof (induction "length lines - i" arbitrary: i p c f thesis rule: less_induct)
  case less
  show ?case
  proof (cases "i < length lines")
    case False
    with less.prems(2) have "i = length lines" by simp
    then show ?thesis
      by (intro less.prems(1) [of "[]" "[]"]) (simp_all add: scan_loop_unfold)
  next
    case True
    obtain i' e1 fs1 where
      step: "block_step lines (i, p, c, f) = (i', p @ e1, c + int (length e1), f @ fs1)"
      and i': "i < i'" "i' \<le> length lines"
      and b1: "\<forall>r \<in> set fs1. c \<le> startIndex r \<and> startIndex r \<le> endIndex r \<and> endIndex r \<le> c + int (length e1)"
      and n1: "(\<forall>l \<in> set lines. CHR ''\<newline>'' \<notin> set l) \<longrightarrow> count_list e1 CHR ''\<newline>'' = i' - i"
      by (rule block_step_inv [OF True, where p = p and c = c and f = f])
    from i' have dec: "length lines - i' < length lines - i" by simp
    obtain e2 fs2 where
      rest: "scan_loop lines (i', p @ e1, c + int (length e1), f @ fs1) =
          (length lines, (p @ e1) @ e2, (c + int (length e1)) + int (length e2), (f @ fs1) @ fs2)"
      and b2: "\<forall>r \<in> set fs2. c + int (length e1) \<le> startIndex r \<and> startIndex r \<le> endIndex r \<and>
          endIndex r \<le> (c + int (length e1)) + int (length e2)"
      and n2: "(\<forall>l \<in> set lines. CHR ''\<newline>'' \<notin> set l) \<longrightarrow> count_list e2 CHR ''\<newline>'' = length lines - i'"
      by (rule less.hyps [OF dec _ i'(2), of "p @ e1" "c + int (length e1)" "f @ fs1"])
    show ?thesis
    proof (rule less.prems(1) [of "e1 @ e2" "fs1 @ fs2"])
      show "scan_loop lines (i, p, c, f) =
          (length lines, p @ e1 @ e2, c + int (length (e1 @ e2)), f @ fs1 @ fs2)"
        using True rest by (simp add: scan_loop_unfold [of lines i] step add.assoc)
      show "\<forall>r \<in> set (fs1 @ fs2). c \<le> startIndex r \<and> startIndex r \<le> endIndex r \<and>
          endIndex r \<le> c + int (length (e1 @ e2))"
        using b1 b2 by fastforce
      show "(\<forall>l \<in> set lines. CHR ''\<newline>'' \<notin> set l) \<longrightarrow>
          count_list (e1 @ e2) CHR ''\<newline>'' = length lines - i"
        using n1 n2 i' by auto
    qed
  qed
qed

lemma str_split_nonempty: "str_split c s \<noteq> []"
  by (induction s) (auto split: list.splits)

lemma str_split_no_sep: "l \<in> set (str_split c s) \<Longrightarrow> c \<notin> set l"
proof (induction s arbitrary: l)
  case Nil
  then show ?case by simp
next
  case (Cons a s)
  then show ?case by (auto split: if_splits list.splits)
qed

lemma final_state_inv:
  obtains e fs where
    "final_state markdown = (length (str_split CHR ''\<newline>'' markdown), e, 1 + int (length e), fs)"
    and "\<forall>r \<in> set fs. 1 \<le> startIndex r \<and> startIndex r \<le> endIndex r \<and> endIndex r \<le> 1 + int (length e)"
    and "count_list e CHR ''\<newline>'' = length (str_split CHR ''\<newline>'' markdown)"
proof -
  obtain e fs where
    s: "scan_loop (str_split CHR ''\<newline>'' markdown) (0, [], 1, []) =
        (length (str_split CHR ''\<newline>'' markdown), [] @ e, 1 + int (length e), [] @ fs)"
    and b: "\<forall>r \<in> set fs. 1 \<le> startIndex r \<and> startIndex r \<le> endIndex r \<and> endIndex r \<le> 1 + int (length e)"
    and n: "(\<forall>l \<in> set (str_split CHR ''\<newline>'' markdown). CHR ''\<newline>'' \<notin> set l) \<longrightarrow>
        count_list e CHR ''\<newline>'' = length (str_split CHR ''\<newline>'' markdown) - 0"
    by (rule scan_loop_inv [of 0 "str_split CHR ''\<newline>'' markdown" "[]" 1 "[]"]) simp
  from n have "count_list e CHR ''\<newline>'' = length (str_split CHR ''\<newline>'' markdown)"
    by (auto dest: str_split_no_sep)
  with s b show ?thesis by (intro that [of e fs]) (simp_all add: final_state_def)
qed

text \<open>
  C1: the cursor starts at 1, and in the state in which the converter ends the length of
  the plain text is the cursor minus 1. Every pass through the loop body, that is every
  block, appends some text to the plain text and moves the cursor forward by the length
  of that text, the newline the block ends with included.
\<close>

theorem cursor_length_invariant:
  "final_state markdown = scan_loop (str_split CHR ''\<newline>'' markdown) (0, [], 1, []) \<and>
   (case final_state markdown of
      (i, plain_text, current_index, format_requests) \<Rightarrow>
        int (length plain_text) = current_index - 1) \<and>
   (i < length lines \<longrightarrow>
      (case block_step lines (i, p, c, f) of
         (i', p', c', f') \<Rightarrow>
           p' = p @ drop (length p) p' \<and> c' = c + int (length (drop (length p) p'))))"
proof -
  obtain e fs where
    "final_state markdown = (length (str_split CHR ''\<newline>'' markdown), e, 1 + int (length e), fs)"
    and "\<forall>r \<in> set fs. 1 \<le> startIndex r \<and> startIndex r \<le> endIndex r \<and> endIndex r \<le> 1 + int (length e)"
    and "count_list e CHR ''\<newline>'' = length (str_split CHR ''\<newline>'' markdown)"
    by (rule final_state_inv)
  then have "case final_state markdown of
      (i, plain_text, current_index, format_requests) \<Rightarrow>
        int (length plain_text) = current_index - 1"
    by simp
  moreover have "case block_step lines (i, p, c, f) of
         (i', p', c', f') \<Rightarrow>
           p' = p @ drop (length p) p' \<and> c' = c + int (length (drop (length p) p'))"
    if il: "i < length lines"
  proof -
    obtain i' e fs where "block_step lines (i, p, c, f) = (i', p @ e, c + int (length e), f @ fs)"
      and "i < i'" and "i' \<le> length lines"
      and "\<forall>r \<in> set fs. c \<le> startIndex r \<and> startIndex r \<le> endIndex r \<and> endIndex r \<le> c + int (length e)"
      and "(\<forall>l \<in> set lines. CHR ''\<newline>'' \<notin> set l) \<longrightarrow> count_list e CHR ''\<newline>'' = i' - i"
      by (rule block_step_inv [OF il, where p = p and c = c and f = f])
    then show ?thesis by simp
  qed
  ultimately show ?thesis by (simp add: final_state_def)
qed

text \<open>The theorem on an input of two lines, and on a run of two bullet items.\<close>

theorem cursor_length_invariant_witness:
  "final_state ''# T\<newline>x'' = (2, ''T\<newline>x\<newline>'', 5, [UpdateParagraphStyle 1 3 ''HEADING_1'']) \<and>
   int (length ''T\<newline>x\<newline>'') = 5 - 1 \<and>
   (0::nat) < length [''- a'', ''- b''] \<and>
   block_step [''- a'', ''- b''] (0, ''x'', 2, []) =
     (2, ''xa\<newline>b\<newline>'', 6, [CreateParagraphBullets 2 6 BULLET_DISC_CIRCLE_SQUARE])"
proof -
  have a: "final_state ''# T\<newline>x'' = (2, ''T\<newline>x\<newline>'', 5, [UpdateParagraphStyle 1 3 ''HEADING_1''])"
    by code_simp
  have b: "block_step [''- a'', ''- b''] (0, ''x'', 2, []) =
     (2, ''xa\<newline>b\<newline>'', 6, [CreateParagraphBullets 2 6 BULLET_DISC_CIRCLE_SQUARE])"
    by code_simp
  from cursor_length_invariant [of "''# T\<newline>x''" 0 "[''- a'', ''- b'']" "''x''" 2 "[]"] a b
  show ?thesis by simp
qed

text \<open>
  C2: every request the converter returns, of whichever kind, has a range \<open>[start, end)\<close>
  with \<open>1 \<le> start \<le> end \<le> len(plainText) + 1\<close>.
\<close>

theorem range_containment:
  "r \<in> set (snd (parse_markdown_to_doc_requests markdown)) \<Longrightarrow>
     1 \<le> startIndex r \<and> startIndex r \<le> endIndex r \<and>
     endIndex r \<le> int (length (fst (parse_markdown_to_doc_requests markdown))) + 1"
proof -
  assume r: "r \<in> set (snd (parse_markdown_to_doc_requests markdown))"
  obtain e fs where
    "final_state markdown = (length (str_split CHR ''\<newline>'' markdown), e, 1 + int (length e), fs)"
    and "\<forall>r \<in> set fs. 1 \<le> startIndex r \<and> startIndex r \<le> endIndex r \<and> endIndex r \<le> 1 + int (length e)"
    and "count_list e CHR ''\<newline>'' = length (str_split CHR ''\<newline>'' markdown)"
    by (rule final_state_inv)
  with r show ?thesis by (auto simp: parse_markdown_to_doc_requests_def)
qed

text \<open>The theorem for the bold span of an input with a heading and a paragraph.\<close>

theorem range_containment_witness:
  "UpdateTextStyle 5 6 (Flag Bold) \<in> set (snd (parse_markdown_to_doc_requests ''# T\<newline>x **y**'')) \<and>
   1 \<le> startIndex (UpdateTextStyle 5 6 (Flag Bold)) \<and>
   startIndex (UpdateTextStyle 5 6 (Flag Bold)) \<le> endIndex (UpdateTextStyle 5 6 (Flag Bold)) \<and>
   endIndex (UpdateTextStyle 5 6 (Flag Bold))
     \<le> int (length (fst (parse_markdown_to_doc_requests ''# T\<newline>x **y**''))) + 1"
proof -
  have e: "parse_markdown_to_doc_requests ''# T\<newline>x **y**'' =
      (''T\<newline>x y\<newline>'', [UpdateParagraphStyle 1 3 ''HEADING_1'', UpdateTextStyle 5 6 (Flag Bold)])"
    by code_simp
  then have m: "UpdateTextStyle 5 6 (Flag Bold) \<in> set (snd (parse_markdown_to_doc_requests ''# T\<newline>x **y**''))"
    by simp
  from range_containment [OF m] m show ?thesis by simp
qed

text \<open>
  C9: the plain text has exactly one newline for each element of the input split at
  newlines. The inline formatter returns the empty text exactly for the empty line, so
  the paragraph branch drops no line: a line that is no heading and no list item is
  appended with its newline. Every block of lines without newlines consumes at least one
  line and appends exactly one newline for each line it consumes.
\<close>

theorem newline_count:
  "count_list (fst (parse_markdown_to_doc_requests markdown)) CHR ''\<newline>''
     = length (str_split CHR ''\<newline>'' markdown) \<and>
   (fst (process_inline_markdown line b) = [] \<longleftrightarrow> line = []) \<and>
   (i < length lines \<and> (\<forall>l \<in> set lines. CHR ''\<newline>'' \<notin> set l) \<longrightarrow>
      (case block_step lines (i, p, c, f) of
         (i', p', c', f') \<Rightarrow>
           i < i' \<and> i' \<le> length lines \<and> p' = p @ drop (length p) p' \<and>
           count_list (drop (length p) p') CHR ''\<newline>'' = i' - i)) \<and>
   (re_match heading_rx (lines ! i) = None \<and> re_match bullet_rx (lines ! i) = None \<and>
    re_match numbered_rx (lines ! i) = None \<longrightarrow>
      block_step lines (i, p, c, f) =
        (i + 1, p @ fst (process_inline_markdown (lines ! i) c) @ ''\<newline>'',
         c + int (length (fst (process_inline_markdown (lines ! i) c))) + 1,
         f @ snd (process_inline_markdown (lines ! i) c)))"
proof -
  obtain e fs where
    "final_state markdown = (length (str_split CHR ''\<newline>'' markdown), e, 1 + int (length e), fs)"
    and "\<forall>r \<in> set fs. 1 \<le> startIndex r \<and> startIndex r \<le> endIndex r \<and> endIndex r \<le> 1 + int (length e)"
    and "count_list e CHR ''\<newline>'' = length (str_split CHR ''\<newline>'' markdown)"
    by (rule final_state_inv)
  then have 1: "count_list (fst (parse_markdown_to_doc_requests markdown)) CHR ''\<newline>''
     = length (str_split CHR ''\<newline>'' markdown)"
    by (simp add: parse_markdown_to_doc_requests_def)
  obtain r fs' where "process_inline_markdown line b = (r, fs')"
    and "style_chain b fs' (b + int (length r))" and "set r \<subseteq> set line"
    and "r = [] \<longleftrightarrow> line = []"
    by (rule process_inline_markdown_inv)
  then have 2: "fst (process_inline_markdown line b) = [] \<longleftrightarrow> line = []" by simp
  have 3: "case block_step lines (i, p, c, f) of
         (i', p', c', f') \<Rightarrow>
           i < i' \<and> i' \<le> length lines \<and> p' = p @ drop (length p) p' \<and>
           count_list (drop (length p) p') CHR ''\<newline>'' = i' - i"
    if il: "i < length lines" and nl: "\<forall>l \<in> set lines. CHR ''\<newline>'' \<notin> set l"
  proof -
    obtain i' e fs where "block_step lines (i, p, c, f) = (i', p @ e, c + int (length e), f @ fs)"
      and "i < i'" and "i' \<le> length lines"
      and "\<forall>r \<in> set fs. c \<le> startIndex r \<and> startIndex r \<le> endIndex r \<and> endIndex r \<le> c + int (length e)"
      and "(\<forall>l \<in> set lines. CHR ''\<newline>'' \<notin> set l) \<longrightarrow> count_list e CHR ''\<newline>'' = i' - i"
      by (rule block_step_inv [OF il, where p = p and c = c and f = f])
    with nl show ?thesis by simp
  qed
  have 4: "block_step lines (i, p, c, f) =
        (i + 1, p @ fst (process_inline_markdown (lines ! i) c) @ ''\<newline>'',
         c + int (length (fst (process_inline_markdown (lines ! i) c))) + 1,
         f @ snd (process_inline_markdown (lines ! i) c))"
    if "re_match heading_rx (lines ! i) = None" "re_match bullet_rx (lines ! i) = None"
      "re_match numbered_rx (lines ! i) = None"
    using block_step_paragraph [OF that, of p c f] by simp
  have s3: "i < length lines \<and> (\<forall>l \<in> set lines. CHR ''\<newline>'' \<notin> set l) \<longrightarrow>
      (case block_step lines (i, p, c, f) of
         (i', p', c', f') \<Rightarrow>
           i < i' \<and> i' \<le> length lines \<and> p' = p @ drop (length p) p' \<and>
           count_list (drop (length p) p') CHR ''\<newline>'' = i' - i)"
    by (intro impI; elim conjE; rule 3; assumption)
  have s4: "re_match heading_rx (lines ! i) = None \<and> re_match bullet_rx (lines ! i) = None \<and>
    re_match numbered_rx (lines ! i) = None \<longrightarrow>
      block_step lines (i, p, c, f) =
        (i + 1, p @ fst (process_inline_markdown (lines ! i) c) @ ''\<newline>'',
         c + int (length (fst (process_inline_markdown (lines ! i) c))) + 1,
         f @ snd (process_inline_markdown (lines ! i) c))"
    by (intro impI; elim conjE; rule 4; assumption)
  show ?thesis by (rule conjI [OF 1 conjI [OF 2 conjI [OF s3 s4]]])
qed

text \<open>The theorem on an input of four lines, on a numbered run and on an empty line.\<close>

theorem newline_count_witness:
  "count_list (fst (parse_markdown_to_doc_requests ''# T\<newline>\<newline>- a\<newline>'')) CHR ''\<newline>'' = 4 \<and>
   length (str_split CHR ''\<newline>'' ''# T\<newline>\<newline>- a\<newline>'') = 4 \<and>
   (0::nat) < length [''1. a'', ''2. b'', ''''] \<and>
   block_step [''1. a'', ''2. b'', ''''] (0, ''x'', 2, []) =
     (2, ''xa\<newline>b\<newline>'', 6, [CreateParagraphBullets 2 6 NUMBERED_DECIMAL_ALPHA_ROMAN]) \<and>
   count_list (drop (length ''x'') ''xa\<newline>b\<newline>'') CHR ''\<newline>'' = 2 - 0 \<and>
   block_step [''''] (0, ''x'', 2, []) = (1, ''x\<newline>'', 3, [])"
proof -
  have a: "length (str_split CHR ''\<newline>'' ''# T\<newline>\<newline>- a\<newline>'') = 4" by code_simp
  have b: "block_step [''1. a'', ''2. b'', ''''] (0, ''x'', 2, []) =
     (2, ''xa\<newline>b\<newline>'', 6, [CreateParagraphBullets 2 6 NUMBERED_DECIMAL_ALPHA_ROMAN])"
    by code_simp
  have c: "block_step [''''] (0, ''x'', 2, []) = (1, ''x\<newline>'', 3, [])" by code_simp
  have d: "\<forall>l \<in> set [''1. a'', ''2. b'', '''']. CHR ''\<newline>'' \<notin> set l" by simp
  from newline_count [of "''# T\<newline>\<newline>- a\<newline>''" "''''" 0 0 "[''1. a'', ''2. b'', '''']" "''x''" 2 "[]"]
    a b c d
  show ?thesis by simp
qed

section \<open>List runs\<close>

lemma bullet_line_iff:
  "re_match bullet_rx line \<noteq> None \<longleftrightarrow>
     (\<exists>m w rest. line = m # w # rest \<and> (m = CHR ''-'' \<or> m = CHR ''*'') \<and> is_space w)"
proof (cases line)
  case Nil
  then show ?thesis by (simp add: re_match_bullet)
next
  case (Cons c r)
  then show ?thesis by (cases r) (auto simp: re_match_bullet)
qed

lemma numbered_line_iff:
  "re_match numbered_rx line \<noteq> None \<longleftrightarrow>
     (\<exists>ds w rest. line = ds @ CHR ''.'' # w # rest \<and> ds \<noteq> [] \<and> (\<forall>d \<in> set ds. is_digit d) \<and>
        is_space w)"
proof
  assume "re_match numbered_rx line \<noteq> None"
  define ds where "ds = takeWhile is_digit line"
  define r where "r = dropWhile is_digit line"
  from \<open>re_match numbered_rx line \<noteq> None\<close>
  have ne: "ds \<noteq> []" and dot: "take 1 r = ''.''" and sp: "takeWhile is_space (drop 1 r) \<noteq> []"
    by (auto simp: re_match_numbered Let_def ds_def r_def split: if_splits)
  from dot obtain r' where r': "r = CHR ''.'' # r'" by (cases r) auto
  with sp obtain w rest where w: "r' = w # rest" "is_space w"
    by (cases r') (auto split: if_splits)
  have "line = ds @ r" by (simp add: ds_def r_def)
  moreover have "\<forall>d \<in> set ds. is_digit d" unfolding ds_def by (auto dest: set_takeWhileD)
  ultimately show "\<exists>ds w rest. line = ds @ CHR ''.'' # w # rest \<and> ds \<noteq> [] \<and>
      (\<forall>d \<in> set ds. is_digit d) \<and> is_space w"
    using ne r' w by blast
next
  assume "\<exists>ds w rest. line = ds @ CHR ''.'' # w # rest \<and> ds \<noteq> [] \<and>
      (\<forall>d \<in> set ds. is_digit d) \<and> is_space w"
  then obtain ds w rest where l: "line = ds @ CHR ''.'' # w # rest" and ne: "ds \<noteq> []"
    and dg: "\<forall>d \<in> set ds. is_digit d" and w: "is_space w"
    by blast
  have nd: "\<not> is_digit CHR ''.''" by (simp add: is_digit_def)
  have "takeWhile is_digit line = ds" using dg nd by (simp add: l takeWhile_append2)
  moreover have "dropWhile is_digit line = CHR ''.'' # w # rest"
    using dg nd by (simp add: l dropWhile_append2)
  ultimately show "re_match numbered_rx line \<noteq> None"
    using ne w by (simp add: re_match_numbered Let_def)
qed

lemma re_sub_empty_bullet:
  assumes "re_match bullet_rx line \<noteq> None"
  shows "re_sub_empty bullet_rx line = dropWhile is_space (tl line)"
proof -
  from assms obtain c r where l: "line = c # r" by (cases line) (auto simp: re_match_bullet)
  have "drop (length (takeWhile is_space r)) r = dropWhile is_space r"
    by (rule dropWhile_eq_drop [symmetric])
  with assms show ?thesis
    by (auto simp: l re_sub_empty_def re_match_bullet len_group0_def split: if_splits)
qed

lemma re_sub_empty_numbered:
  assumes "re_match numbered_rx line \<noteq> None"
  shows "re_sub_empty numbered_rx line = dropWhile is_space (tl (dropWhile is_digit line))"
proof -
  define ds where "ds = takeWhile is_digit line"
  define r where "r = dropWhile is_digit line"
  from assms have dot: "take 1 r = ''.''"
    and m: "re_match numbered_rx line =
      Some (length ds + Suc (length (takeWhile is_space (drop 1 r))), [])"
    by (auto simp: re_match_numbered Let_def ds_def r_def split: if_splits)
  from dot obtain r' where r': "r = CHR ''.'' # r'" by (cases r) auto
  have "drop (length ds) line = r" by (simp add: ds_def r_def dropWhile_eq_drop)
  then have "drop (length ds + Suc (length (takeWhile is_space r'))) line =
      drop (Suc (length (takeWhile is_space r'))) r"
    by (metis add.commute drop_drop)
  also have "\<dots> = drop (length (takeWhile is_space r')) r'" by (simp add: r')
  also have "\<dots> = dropWhile is_space r'" by (rule dropWhile_eq_drop [symmetric])
  finally show ?thesis using m by (simp add: re_sub_empty_def len_group0_def r' r_def [symmetric])
qed

lemma run_maximal:
  assumes run: "run = takeWhile (list_line rx) (drop i lines)"
  shows "(\<forall>k < length run. list_line rx (lines ! (i + k))) \<and>
         (i + length run < length lines \<longrightarrow> \<not> list_line rx (lines ! (i + length run)))"
proof (intro conjI allI impI)
  fix k assume k: "k < length run"
  then have "run ! k \<in> set run" by simp
  then have "list_line rx (run ! k)" unfolding run by (auto dest: set_takeWhileD)
  moreover have "run ! k = drop i lines ! k" using k unfolding run by (rule takeWhile_nth)
  moreover have "k < length (drop i lines)"
    using k length_takeWhile_le [of "list_line rx" "drop i lines"] unfolding run by simp
  ultimately show "list_line rx (lines ! (i + k))" by simp
next
  assume "i + length run < length lines"
  then have "length run < length (drop i lines)" by simp
  then have "\<not> list_line rx (drop i lines ! length run)"
    unfolding run by (rule nth_length_takeWhile)
  then show "\<not> list_line rx (lines ! (i + length run))"
    using \<open>i + length run < length lines\<close> by simp
qed

lemma block_step_list:
  assumes "i < length lines"
  shows "list_line bullet_rx (lines ! i) \<Longrightarrow>
      block_step lines (i, p, c, f) =
        (let run = takeWhile (list_line bullet_rx) (drop i lines);
             list_text = str_join ''\<newline>'' (map (re_sub_empty bullet_rx) run) @ ''\<newline>''
         in (i + length run, p @ list_text, c + int (length list_text),
             f @ [CreateParagraphBullets c (c + int (length list_text)) BULLET_DISC_CIRCLE_SQUARE]))"
    and "list_line numbered_rx (lines ! i) \<Longrightarrow>
      block_step lines (i, p, c, f) =
        (let run = takeWhile (list_line numbered_rx) (drop i lines);
             list_text = str_join ''\<newline>'' (map (re_sub_empty numbered_rx) run) @ ''\<newline>''
         in (i + length run, p @ list_text, c + int (length list_text),
             f @ [CreateParagraphBullets c (c + int (length list_text)) NUMBERED_DECIMAL_ALPHA_ROMAN]))"
proof -
  have eq: "list_line rx = (\<lambda>l. re_match rx l \<noteq> None)" for rx
    by (rule ext) (simp add: list_line_def)
  show "list_line bullet_rx (lines ! i) \<Longrightarrow>
      block_step lines (i, p, c, f) =
        (let run = takeWhile (list_line bullet_rx) (drop i lines);
             list_text = str_join ''\<newline>'' (map (re_sub_empty bullet_rx) run) @ ''\<newline>''
         in (i + length run, p @ list_text, c + int (length list_text),
             f @ [CreateParagraphBullets c (c + int (length list_text)) BULLET_DISC_CIRCLE_SQUARE]))"
    by (simp add: eq block_step_bullet list_run_takeWhile list_text_of_def Let_def)
  show "list_line numbered_rx (lines ! i) \<Longrightarrow>
      block_step lines (i, p, c, f) =
        (let run = takeWhile (list_line numbered_rx) (drop i lines);
             list_text = str_join ''\<newline>'' (map (re_sub_empty numbered_rx) run) @ ''\<newline>''
         in (i + length run, p @ list_text, c + int (length list_text),
             f @ [CreateParagraphBullets c (c + int (length list_text)) NUMBERED_DECIMAL_ALPHA_ROMAN]))"
    by (simp add: eq block_step_numbered list_run_takeWhile list_text_of_def Let_def)
qed

lemma block_step_no_list:
  assumes "\<not> list_line bullet_rx (lines ! i)" and "\<not> list_line numbered_rx (lines ! i)"
  shows "\<exists>p' c' fs. block_step lines (i, p, c, f) = (i + 1, p', c', f @ fs) \<and>
           (\<forall>r \<in> set fs. \<not> is_bullets r)"
proof (cases "re_match heading_rx (lines ! i)")
  case None
  obtain r fs where e: "process_inline_markdown (lines ! i) c = (r, fs)"
    and ch: "style_chain c fs (c + int (length r))" and "set r \<subseteq> set (lines ! i)"
    and "r = [] \<longleftrightarrow> lines ! i = []"
    by (rule process_inline_markdown_inv)
  have "\<not> is_bullets q" if "q \<in> set fs" for q
  proof -
    from style_chain_bounds [OF ch] that have "is_text_style q" by blast
    then show ?thesis by (cases q) auto
  qed
  moreover from assms have "re_match bullet_rx (lines ! i) = None"
    and "re_match numbered_rx (lines ! i) = None"
    unfolding list_line_def by blast+
  from block_step_paragraph [OF None this, of p c f]
  have "block_step lines (i, p, c, f) = (i + 1, p @ r @ ''\<newline>'', c + int (length (r @ ''\<newline>'')), f @ fs)"
    by (simp add: e)
  ultimately show ?thesis by blast
next
  case (Some m)
  from block_step_heading [OF Some, of p c f] show ?thesis by auto
qed

text \<open>
  A marker followed by whitespace and nothing else does not match the patterns of the
  specification, but the converter takes the line as a list item, with the empty text.
\<close>

theorem marker_without_content_is_list_item:
  "re_match spec_bullet_rx ''- '' = None \<and> list_line bullet_rx ''- '' \<and>
   re_match spec_numbered_rx ''1. '' = None \<and> list_line numbered_rx ''1. '' \<and>
   parse_markdown_to_doc_requests ''- '' =
     (''\<newline>'', [CreateParagraphBullets 1 2 BULLET_DISC_CIRCLE_SQUARE])"
  by code_simp

text \<open>
  C8, amended: a line starts or continues a bullet run exactly when it matches
  \<^verbatim>\<open>^[-*]\s+\<close>, that is when it is a \<^verbatim>\<open>-\<close> or \<^verbatim>\<open>*\<close> followed by a whitespace character, and a
  numbered run exactly when it matches \<^verbatim>\<open>^\d+\.\s+\<close>, that is when it is one or more digits,
  a dot and a whitespace character; no content after the whitespace is needed, and the
  item is the line without its marker and the whitespace after it. A block that starts
  at such a line consumes the longest run of lines that match the same pattern (every
  line of the run matches, and the line after the run, if there is one, does not; the
  empty line matches neither pattern), appends the items, one on each line, and adds
  exactly one bullet preset request over that text, unordered for a bullet run and
  ordered for a numbered run. A block that starts at any other line consumes that line
  alone and adds no bullet preset request.
\<close>

theorem list_line_classification:
  "(list_line bullet_rx line \<longleftrightarrow>
      (\<exists>m w rest. line = m # w # rest \<and> (m = CHR ''-'' \<or> m = CHR ''*'') \<and> is_space w)) \<and>
   (list_line numbered_rx line \<longleftrightarrow>
      (\<exists>ds w rest. line = ds @ CHR ''.'' # w # rest \<and> ds \<noteq> [] \<and> (\<forall>d \<in> set ds. is_digit d) \<and>
         is_space w)) \<and>
   (list_line bullet_rx line \<longrightarrow> re_sub_empty bullet_rx line = dropWhile is_space (tl line)) \<and>
   (list_line numbered_rx line \<longrightarrow>
      re_sub_empty numbered_rx line = dropWhile is_space (tl (dropWhile is_digit line))) \<and>
   (i < length lines \<and> list_line bullet_rx (lines ! i) \<longrightarrow>
      block_step lines (i, p, c, f) =
        (let run = takeWhile (list_line bullet_rx) (drop i lines);
             list_text = str_join ''\<newline>'' (map (re_sub_empty bullet_rx) run) @ ''\<newline>''
         in (i + length run, p @ list_text, c + int (length list_text),
             f @ [CreateParagraphBullets c (c + int (length list_text)) BULLET_DISC_CIRCLE_SQUARE]))) \<and>
   (i < length lines \<and> list_line numbered_rx (lines ! i) \<longrightarrow>
      block_step lines (i, p, c, f) =
        (let run = takeWhile (list_line numbered_rx) (drop i lines);
             list_text = str_join ''\<newline>'' (map (re_sub_empty numbered_rx) run) @ ''\<newline>''
         in (i + length run, p @ list_text, c + int (length list_text),
             f @ [CreateParagraphBullets c (c + int (length list_text)) NUMBERED_DECIMAL_ALPHA_ROMAN]))) \<and>
   (i < length lines \<and> \<not> list_line bullet_rx (lines ! i) \<and> \<not> list_line numbered_rx (lines ! i) \<longrightarrow>
      (\<exists>p' c' fs. block_step lines (i, p, c, f) = (i + 1, p', c', f @ fs) \<and>
         (\<forall>r \<in> set fs. \<not> is_bullets r))) \<and>
   (\<forall>k < length (takeWhile (list_line rx) (drop i lines)). list_line rx (lines ! (i + k))) \<and>
   (i + length (takeWhile (list_line rx) (drop i lines)) < length lines \<longrightarrow>
      \<not> list_line rx (lines ! (i + length (takeWhile (list_line rx) (drop i lines)))))"
proof -
  note c1 = bullet_line_iff [of line, folded list_line_def]
  note c2 = numbered_line_iff [of line, folded list_line_def]
  have c3: "list_line bullet_rx line \<longrightarrow> re_sub_empty bullet_rx line = dropWhile is_space (tl line)"
    using re_sub_empty_bullet [of line] by (simp add: list_line_def)
  have c4: "list_line numbered_rx line \<longrightarrow>
      re_sub_empty numbered_rx line = dropWhile is_space (tl (dropWhile is_digit line))"
    using re_sub_empty_numbered [of line] by (simp add: list_line_def)
  have c5: "i < length lines \<and> list_line bullet_rx (lines ! i) \<longrightarrow>
      block_step lines (i, p, c, f) =
        (let run = takeWhile (list_line bullet_rx) (drop i lines);
             list_text = str_join ''\<newline>'' (map (re_sub_empty bullet_rx) run) @ ''\<newline>''
         in (i + length run, p @ list_text, c + int (length list_text),
             f @ [CreateParagraphBullets c (c + int (length list_text)) BULLET_DISC_CIRCLE_SQUARE]))"
    by (intro impI; elim conjE; rule block_step_list(1); assumption)
  have c6: "i < length lines \<and> list_line numbered_rx (lines ! i) \<longrightarrow>
      block_step lines (i, p, c, f) =
        (let run = takeWhile (list_line numbered_rx) (drop i lines);
             list_text = str_join ''\<newline>'' (map (re_sub_empty numbered_rx) run) @ ''\<newline>''
         in (i + length run, p @ list_text, c + int (length list_text),
             f @ [CreateParagraphBullets c (c + int (length list_text)) NUMBERED_DECIMAL_ALPHA_ROMAN]))"
    by (intro impI; elim conjE; rule block_step_list(2); assumption)
  have c7: "i < length lines \<and> \<not> list_line bullet_rx (lines ! i) \<and> \<not> list_line numbered_rx (lines ! i) \<longrightarrow>
      (\<exists>p' c' fs. block_step lines (i, p, c, f) = (i + 1, p', c', f @ fs) \<and>
         (\<forall>r \<in> set fs. \<not> is_bullets r))"
    by (intro impI; elim conjE; rule block_step_no_list; assumption)
  note c8 = run_maximal [OF refl, of rx i lines]
  show ?thesis
    by (rule conjI [OF c1 conjI [OF c2 conjI [OF c3 conjI [OF c4 conjI [OF c5 conjI [OF c6
          conjI [OF c7 c8]]]]]]])
qed

text \<open>
  The theorem on a marker without content, and on a numbered run of two items that an
  empty line ends.
\<close>

theorem list_line_classification_witness:
  "list_line bullet_rx ''- '' \<and> re_sub_empty bullet_rx ''- '' = [] \<and>
   (0::nat) < length [''1. a'', ''27.  b'', [], ''3. c''] \<and>
   list_line numbered_rx ([''1. a'', ''27.  b'', [], ''3. c''] ! 0) \<and>
   takeWhile (list_line numbered_rx) (drop 0 [''1. a'', ''27.  b'', [], ''3. c'']) = [''1. a'', ''27.  b''] \<and>
   block_step [''1. a'', ''27.  b'', [], ''3. c''] (0, ''x'', 2, []) =
     (2, ''xa\<newline>b\<newline>'', 6, [CreateParagraphBullets 2 6 NUMBERED_DECIMAL_ALPHA_ROMAN])"
proof -
  have a: "list_line bullet_rx ''- ''" by code_simp
  have b: "list_line numbered_rx ([''1. a'', ''27.  b'', [], ''3. c''] ! 0)" by code_simp
  have e: "list_line numbered_rx ''27.  b''" "\<not> list_line numbered_rx []"
    "re_sub_empty numbered_rx ''1. a'' = ''a''" "re_sub_empty numbered_rx ''27.  b'' = ''b''"
    "is_space CHR '' ''"
    by code_simp+
  from list_line_classification [of "''- ''" 0 "[''1. a'', ''27.  b'', [], ''3. c'']" "''x''" 2 "[]"]
    a b
  have "re_sub_empty bullet_rx ''- '' = dropWhile is_space (tl ''- '')"
    and "block_step [''1. a'', ''27.  b'', [], ''3. c''] (0, ''x'', 2, []) =
        (let run = takeWhile (list_line numbered_rx) (drop 0 [''1. a'', ''27.  b'', [], ''3. c'']);
             list_text = str_join ''\<newline>'' (map (re_sub_empty numbered_rx) run) @ ''\<newline>''
         in (0 + length run, ''x'' @ list_text, 2 + int (length list_text),
             [] @ [CreateParagraphBullets 2 (2 + int (length list_text)) NUMBERED_DECIMAL_ALPHA_ROMAN]))"
    by simp_all
  then show ?thesis using a b by (simp add: e Let_def)
qed

section \<open>The converter on the inputs of the specification\<close>

text \<open>
  \<^verbatim>\<open>''.split('\n')\<close> is the list of one empty line, and the paragraph branch gives an empty
  line its newline. The empty input therefore does not yield the empty text.
\<close>

theorem empty_input_text_not_empty:
  "parse_markdown_to_doc_requests [] \<noteq> ([], [])"
  by code_simp

text \<open>
  C3, amended: for the empty input string the converter returns the plain text that
  consists of one newline, and an empty list of requests.
\<close>

theorem empty_input_result:
  "parse_markdown_to_doc_requests [] = (''\<newline>'', [])"
  by code_simp

text \<open>
  An input that ends in a newline has an empty last line, which adds one more newline to
  the text: the text of the heading example is not the heading text alone.
\<close>

theorem heading_example_text_differs:
  "fst (parse_markdown_to_doc_requests ''# Title\<newline>'') \<noteq> ''Title\<newline>''"
  by code_simp

text \<open>
  C4, amended: on the input \<^verbatim>\<open>"# Title\n"\<close> the converter returns the plain text
  \<^verbatim>\<open>"Title\n\n"\<close> (the heading text with its newline, then the newline of the empty last
  line) and exactly one request, a paragraph style over the range \<open>[1, 7)\<close> with the
  named style \<^verbatim>\<open>HEADING_1\<close>.
\<close>

theorem heading_example_result:
  "parse_markdown_to_doc_requests ''# Title\<newline>'' =
     (''Title\<newline>\<newline>'', [UpdateParagraphStyle 1 7 ''HEADING_1''])"
  by code_simp

text \<open>The same holds of the bullet example: its text has one newline more.\<close>

theorem bullet_example_text_differs:
  "fst (parse_markdown_to_doc_requests ''- a\<newline>- b\<newline>- c\<newline>'') \<noteq> ''a\<newline>b\<newline>c\<newline>''"
  by code_simp

text \<open>
  C5, amended: on the input \<^verbatim>\<open>"- a\n- b\n- c\n"\<close> the converter returns the plain text
  \<^verbatim>\<open>"a\nb\nc\n\n"\<close> (the three items, then the newline of the empty last line) and
  exactly one request, an unordered bullet preset over the range \<open>[1, 7)\<close>: the three
  items form one run and do not produce three requests.
\<close>

theorem bullet_example_result:
  "parse_markdown_to_doc_requests ''- a\<newline>- b\<newline>- c\<newline>'' =
     (''a\<newline>b\<newline>c\<newline>\<newline>'', [CreateParagraphBullets 1 7 BULLET_DISC_CIRCLE_SQUARE])"
  by code_simp

end
